theory Spec2Isabelle
  imports Complex_Main "HOL-Library.Word"
begin

section \<open>The audio mixer of mixer/src/main.cpp\<close>

text \<open>
  The mixer keeps a table of agents and one ring buffer of 16-bit samples per agent slot.
  \<^verbatim>\<open>addAgent\<close> (the receiving thread) stores an inbound frame in the ring buffer of the
  sender's slot; every pass of the loop of \<^verbatim>\<open>sendBuffer\<close> (the mixing thread) adds one
  frame of every playable ring buffer into \<^verbatim>\<open>masterMix\<close> and sends every recently seen
  agent the master mix minus that agent's own frame, clipped to 16 bits.

  Arrays are functions from the index, and every index or pointer the C++ code would take
  outside its array is a \<open>fault\<close> of the model: the C++ program has undefined behaviour
  there, it raises nothing. \<^verbatim>\<open>int16_t\<close> is \<open>16 word\<close> and \<^verbatim>\<open>long\<close> is \<open>64 word\<close>
  (the LP64 targets the program was written for). Pointers into a ring buffer are sample
  offsets from \<^verbatim>\<open>buffer\<close>; \<open>None\<close> is the \<^verbatim>\<open>NULL\<close> of \<^verbatim>\<open>endOfLastWrite\<close>.
  The two threads share the state without any lock; the model runs one call of
  \<^verbatim>\<open>addAgent\<close> or one pass of the mixing loop at a time.

  The pacing of the mixing loop (lines 158--168) reads nothing but the clock and is
  modelled apart from the mixing. Left out: the domain-server thread and the socket. Agent
  addresses are strings; that line 189 allocates a single \<^verbatim>\<open>char\<close> for the copy of line
  190 is below the level of this model.
\<close>

subsection \<open>Constants (lines 18--41)\<close>

type_synonym int16_t = "16 word"
type_synonym long = "64 word"

definition MAX_AGENTS :: nat where
  "MAX_AGENTS = 1000"

definition LOGOFF_CHECK_INTERVAL :: int where
  "LOGOFF_CHECK_INTERVAL = 1000"

definition BUFFER_LENGTH_BYTES :: nat where
  "BUFFER_LENGTH_BYTES = 1024"

definition BUFFER_LENGTH_SAMPLES :: nat where
  "BUFFER_LENGTH_SAMPLES = BUFFER_LENGTH_BYTES div 2"

text \<open>
  \<^verbatim>\<open>JITTER_BUFFER_SAMPLES = JITTER_BUFFER_MSECS * (SAMPLE_RATE / 1000.0)\<close> with
  \<^verbatim>\<open>JITTER_BUFFER_MSECS = 20\<close> and \<^verbatim>\<open>SAMPLE_RATE = 22050.0\<close>, stored in a
  \<^verbatim>\<open>short\<close>: the value 441.
\<close>

definition JITTER_BUFFER_SAMPLES :: nat where
  "JITTER_BUFFER_SAMPLES = 441"

definition RING_BUFFER_FRAMES :: nat where
  "RING_BUFFER_FRAMES = 10"

definition RING_BUFFER_SAMPLES :: nat where
  "RING_BUFFER_SAMPLES = RING_BUFFER_FRAMES * BUFFER_LENGTH_SAMPLES"

definition MAX_SAMPLE_VALUE :: long where
  "MAX_SAMPLE_VALUE = 32767"

definition MIN_SAMPLE_VALUE :: long where
  "MIN_SAMPLE_VALUE = - 32768"

definition MAX_SOURCE_BUFFERS :: nat where
  "MAX_SOURCE_BUFFERS = 20"

subsection \<open>State\<close>

record timeval =
  tv_sec :: int
  tv_usec :: int

text \<open>\<^verbatim>\<open>struct AgentList\<close> (lines 47--53); \<open>port\<close> is an \<^verbatim>\<open>unsigned short\<close>, only compared.\<close>

record AgentList =
  address :: string
  port :: nat
  active :: bool
  time :: timeval
  bufferTransmitted :: bool

text \<open>
  The fields of \<^verbatim>\<open>AudioRingBuffer\<close> that main.cpp reads and writes. The class itself
  (AudioRingBuffer.h) is not among the sources; main.cpp builds every buffer with
  \<^verbatim>\<open>10 * BUFFER_LENGTH_SAMPLES\<close> samples.
\<close>

record AudioRingBuffer =
  buffer :: "nat \<Rightarrow> int16_t"
  nextOutput :: nat
  endOfLastWrite :: "nat option"
  started :: bool

record audio_mixer =
  agents :: "nat \<Rightarrow> AgentList"
  numAgents :: nat
  sourceBuffers :: "nat \<Rightarrow> AudioRingBuffer"

text \<open>What \<^verbatim>\<open>audioSocket.send\<close> is handed: the agent slot it is for, the address, the port
  and the \<open>BUFFER_LENGTH_SAMPLES\<close> samples of \<^verbatim>\<open>clientMix\<close>.\<close>

record packet =
  dest :: nat
  destAddress :: string
  destPort :: nat
  payload :: "int16_t list"

text \<open>An access outside an array: undefined behaviour of the C++ program.\<close>

datatype fault =
  AgentIndex nat
  | SourceBufferIndex nat
  | SampleRange nat

subsection \<open>The backlog of a ring buffer\<close>

text \<open>
  Modelled from the spec: \<^verbatim>\<open>AudioRingBuffer::diffLastWriteNextOutput\<close> is declared in
  AudioRingBuffer.h, which is not among the sources. The spec gives the unread backlog as
  \<open>(w - r + C) mod C\<close> for the write cursor \<open>w\<close>, the read cursor \<open>r\<close> and the capacity
  \<open>C\<close>. main.cpp calls it only where \<^verbatim>\<open>endOfLastWrite\<close> is not \<^verbatim>\<open>NULL\<close>.
\<close>

definition diffLastWriteNextOutput :: "AudioRingBuffer \<Rightarrow> nat" where
  "diffLastWriteNextOutput rb =
     (case endOfLastWrite rb of
        None \<Rightarrow> 0
      | Some w \<Rightarrow> (w + RING_BUFFER_SAMPLES - nextOutput rb) mod RING_BUFFER_SAMPLES)"

subsection \<open>Time (lines 59--64)\<close>

text \<open>
  \<^verbatim>\<open>diffclock\<close> returns milliseconds as a \<^verbatim>\<open>double\<close>; the model computes the same
  quotient exactly, in the rationals.
\<close>

definition diffclock :: "timeval \<Rightarrow> timeval \<Rightarrow> rat" where
  "diffclock clock1 clock2 =
     of_int (tv_sec clock2 - tv_sec clock1) * 1000
       + of_int (tv_usec clock2 - tv_usec clock1) / 1000"

subsection \<open>Clipping (lines 131--137)\<close>

text \<open>
  \<^verbatim>\<open>std::max(a, b)\<close> is \<^verbatim>\<open>a < b ? b : a\<close> and \<^verbatim>\<open>std::min(a, b)\<close> is
  \<^verbatim>\<open>b < a ? b : a\<close>, on signed \<^verbatim>\<open>long\<close>; the result is then stored in an
  \<^verbatim>\<open>int16_t\<close>, which keeps the low 16 bits.
\<close>

definition shortSample :: "long \<Rightarrow> int16_t" where
  "shortSample longSample =
     (if longSample <s 0
      then scast (if longSample <s MIN_SAMPLE_VALUE then MIN_SAMPLE_VALUE else longSample)
      else scast (if MAX_SAMPLE_VALUE <s longSample then MAX_SAMPLE_VALUE else longSample))"

subsection \<open>One pass of the mixing loop (lines 82--156)\<close>

text \<open>Lines 106--110: the read cursor moves one frame on and wraps at the end.\<close>

definition advanceOutput :: "AudioRingBuffer \<Rightarrow> AudioRingBuffer" where
  "advanceOutput rb =
     (let r = nextOutput rb + BUFFER_LENGTH_SAMPLES
      in rb\<lparr>nextOutput := (if RING_BUFFER_SAMPLES \<le> r then 0 else r)\<rparr>)"

text \<open>
  Lines 91--112, the body of the loop over \<open>b\<close>: a buffer that never received a frame is
  skipped; a buffer that has not started and holds at most a frame plus the jitter
  allowance is held back; a buffer with less than a frame is starved; every other buffer
  is started, marks its agent and adds the frame at its read cursor to \<^verbatim>\<open>masterMix\<close>.
\<close>

definition mixSource ::
  "nat \<Rightarrow> audio_mixer \<times> (nat \<Rightarrow> long) \<Rightarrow> fault + audio_mixer \<times> (nat \<Rightarrow> long)" where
  "mixSource b x =
     (case x of (s, masterMix) \<Rightarrow>
        let rb = sourceBuffers s b in
        (case endOfLastWrite rb of
           None \<Rightarrow> Inr (s, masterMix)
         | Some w \<Rightarrow>
             if \<not> started rb
                \<and> diffLastWriteNextOutput rb \<le> BUFFER_LENGTH_SAMPLES + JITTER_BUFFER_SAMPLES
             then Inr (s, masterMix)
             else if diffLastWriteNextOutput rb < BUFFER_LENGTH_SAMPLES
             then Inr (s\<lparr>sourceBuffers := (sourceBuffers s)(b := rb\<lparr>started := False\<rparr>)\<rparr>,
                       masterMix)
             else if RING_BUFFER_SAMPLES < nextOutput rb + BUFFER_LENGTH_SAMPLES
             then Inl (SampleRange b)
             else Inr (s\<lparr>sourceBuffers :=
                            (sourceBuffers s)(b := advanceOutput (rb\<lparr>started := True\<rparr>)),
                          agents := (agents s)(b := (agents s b)\<lparr>bufferTransmitted := True\<rparr>)\<rparr>,
                       \<lambda>k. if k < BUFFER_LENGTH_SAMPLES
                           then masterMix k + scast (buffer rb (nextOutput rb + k))
                           else masterMix k)))"

fun forSources ::
  "nat list \<Rightarrow> audio_mixer \<times> (nat \<Rightarrow> long) \<Rightarrow> fault + audio_mixer \<times> (nat \<Rightarrow> long)" where
  "forSources [] x = Inr x"
| "forSources (b # bs) x =
     (case mixSource b x of Inl e \<Rightarrow> Inl e | Inr y \<Rightarrow> forSources bs y)"

text \<open>
  Lines 116--155, the body of the loop over \<open>a\<close>: an agent heard from within
  \<open>LOGOFF_CHECK_INTERVAL\<close> milliseconds is sent the clipped master mix, minus the frame
  before its read cursor when its buffer was mixed since the last send.
\<close>

definition sendAgent ::
  "timeval \<Rightarrow> (nat \<Rightarrow> long) \<Rightarrow> nat \<Rightarrow> audio_mixer \<times> packet list
     \<Rightarrow> fault + audio_mixer \<times> packet list" where
  "sendAgent sendTime masterMix a x =
     (case x of (s, out) \<Rightarrow>
        if MAX_AGENTS \<le> a then Inl (AgentIndex a)
        else if diffclock (time (agents s a)) sendTime \<le> of_int LOGOFF_CHECK_INTERVAL
        then
          (if bufferTransmitted (agents s a)
           then
             (if MAX_SOURCE_BUFFERS \<le> a then Inl (SourceBufferIndex a)
              else
                let r = nextOutput (sourceBuffers s a) in
                if r \<noteq> 0 \<and> (r < BUFFER_LENGTH_SAMPLES \<or> RING_BUFFER_SAMPLES < r)
                then Inl (SampleRange a)
                else
                  let previousOutput =
                        (if r = 0 then RING_BUFFER_SAMPLES - BUFFER_LENGTH_SAMPLES
                         else r - BUFFER_LENGTH_SAMPLES)
                  in Inr (s\<lparr>agents := (agents s)(a := (agents s a)\<lparr>bufferTransmitted := False\<rparr>)\<rparr>,
                          out @ [\<lparr>dest = a, destAddress = address (agents s a),
                                  destPort = port (agents s a),
                                  payload = map (\<lambda>as. shortSample (masterMix as
                                      - scast (buffer (sourceBuffers s a) (previousOutput + as))))
                                    [0..<BUFFER_LENGTH_SAMPLES]\<rparr>]))
           else Inr (s, out @ [\<lparr>dest = a, destAddress = address (agents s a),
                                 destPort = port (agents s a),
                                 payload = map (\<lambda>as. shortSample (masterMix as))
                                   [0..<BUFFER_LENGTH_SAMPLES]\<rparr>]))
        else Inr (s, out))"

fun forAgents ::
  "timeval \<Rightarrow> (nat \<Rightarrow> long) \<Rightarrow> nat list \<Rightarrow> audio_mixer \<times> packet list
     \<Rightarrow> fault + audio_mixer \<times> packet list" where
  "forAgents sendTime masterMix [] x = Inr x"
| "forAgents sendTime masterMix (a # as) x =
     (case sendAgent sendTime masterMix a x of
        Inl e \<Rightarrow> Inl e
      | Inr y \<Rightarrow> forAgents sendTime masterMix as y)"

text \<open>
  Lines 82--156: \<^verbatim>\<open>masterMix\<close> is zeroed, the source buffers are mixed, the agents are
  sent their mixes. The result is the new state, the master mix of the pass and the
  packets handed to the socket, in order.
\<close>

definition sendBuffer_pass ::
  "audio_mixer \<Rightarrow> timeval \<Rightarrow> fault + audio_mixer \<times> long list \<times> packet list" where
  "sendBuffer_pass s sendTime =
     (case forSources [0..<MAX_SOURCE_BUFFERS] (s, \<lambda>wb. 0) of
        Inl e \<Rightarrow> Inl e
      | Inr (s1, masterMix) \<Rightarrow>
          (case forAgents sendTime masterMix [0..<numAgents s1] (s1, []) of
             Inl e \<Rightarrow> Inl e
           | Inr (s2, out) \<Rightarrow>
               Inr (s2, map masterMix [0..<BUFFER_LENGTH_SAMPLES], out)))"

subsection \<open>Admission (lines 174--222)\<close>

text \<open>Lines 179--184: the first slot below \<open>numAgents\<close> with the address and the port,
  or \<open>numAgents\<close>.\<close>

function searchAgents :: "audio_mixer \<Rightarrow> string \<Rightarrow> nat \<Rightarrow> nat \<Rightarrow> nat" where
  "searchAgents s a p i =
     (if i < numAgents s
      then (if address (agents s i) = a \<and> port (agents s i) = p then i
            else searchAgents s a p (Suc i))
      else i)"
  by pat_completeness auto
termination
  by (relation "measure (\<lambda>(s, a, p, i). numAgents s - i)") auto

declare searchAgents.simps [simp del]

text \<open>Lines 200--207: where the frame will go. A buffer never written starts at offset 0;
  a buffer whose backlog is more than the capacity less one frame is emptied.\<close>

definition prepareWrite :: "AudioRingBuffer \<Rightarrow> AudioRingBuffer" where
  "prepareWrite rb =
     (case endOfLastWrite rb of
        None \<Rightarrow> rb\<lparr>endOfLastWrite := Some 0\<rparr>
      | Some w \<Rightarrow>
          if RING_BUFFER_SAMPLES - BUFFER_LENGTH_SAMPLES < diffLastWriteNextOutput rb
          then rb\<lparr>endOfLastWrite := Some 0, nextOutput := 0, started := False\<rparr>
          else rb)"

text \<open>Lines 209--215: the frame is copied to the write cursor \<open>w\<close>, which moves one frame
  on and wraps at the end.\<close>

definition writeFrame :: "nat \<Rightarrow> (nat \<Rightarrow> int16_t) \<Rightarrow> AudioRingBuffer \<Rightarrow> AudioRingBuffer" where
  "writeFrame w audioData rb =
     rb\<lparr>buffer := (\<lambda>k. if w \<le> k \<and> k < w + BUFFER_LENGTH_SAMPLES
                       then audioData (k - w) else buffer rb k),
        endOfLastWrite :=
          Some (if RING_BUFFER_SAMPLES \<le> w + BUFFER_LENGTH_SAMPLES then 0
                else w + BUFFER_LENGTH_SAMPLES)\<rparr>"

text \<open>
  \<^verbatim>\<open>addAgent\<close>: \<open>a\<close> and \<open>p\<close> are the sender's address and port, \<open>audioData\<close> the frame
  received, \<open>now\<close> what \<^verbatim>\<open>gettimeofday\<close> returns at line 198. The result is the new state
  and \<^verbatim>\<open>is_new\<close>. After lines 200--207 \<^verbatim>\<open>endOfLastWrite\<close> is never \<^verbatim>\<open>NULL\<close>, so the
  \<open>None\<close> branch before the copy is never taken (\<open>prepareWrite_Some\<close> below).
\<close>

definition addAgent ::
  "audio_mixer \<Rightarrow> string \<Rightarrow> nat \<Rightarrow> (nat \<Rightarrow> int16_t) \<Rightarrow> timeval \<Rightarrow> fault + audio_mixer \<times> int" where
  "addAgent s a p audioData now =
     (let i = searchAgents s a p 0 in
      if MAX_AGENTS \<le> i then Inl (AgentIndex i)
      else
        let fresh = (i = numAgents s \<or> \<not> active (agents s i));
            is_new = (if fresh then 1 else 0);
            ag = (if fresh then (agents s i)\<lparr>address := a, bufferTransmitted := False\<rparr>
                  else agents s i);
            ag' = ag\<lparr>port := p, active := True, time := now\<rparr>
        in
        if MAX_SOURCE_BUFFERS \<le> i then Inl (SourceBufferIndex i)
        else
          let rb = prepareWrite (sourceBuffers s i) in
          (case endOfLastWrite rb of
             None \<Rightarrow> Inl (SampleRange i)
           | Some w \<Rightarrow>
               if RING_BUFFER_SAMPLES < w + BUFFER_LENGTH_SAMPLES then Inl (SampleRange i)
               else Inr (s\<lparr>agents := (agents s)(i := ag'),
                            sourceBuffers := (sourceBuffers s)(i := writeFrame w audioData rb),
                            numAgents := (if i = numAgents s then numAgents s + 1
                                          else numAgents s)\<rparr>,
                         is_new)))"

subsection \<open>Pacing (lines 25--26, 66--68, 73 and 158--168)\<close>








section \<open>Notions used to state the properties\<close>

text \<open>A buffer the loop over \<open>b\<close> mixes: it has received a frame, it has started or holds more
  than a frame plus the jitter allowance, and it holds a frame (the last branch of lines
  92--111).\<close>

definition playable :: "AudioRingBuffer \<Rightarrow> bool" where
  "playable rb =
     (endOfLastWrite rb \<noteq> None
      \<and> (started rb \<or> BUFFER_LENGTH_SAMPLES + JITTER_BUFFER_SAMPLES < diffLastWriteNextOutput rb)
      \<and> BUFFER_LENGTH_SAMPLES \<le> diffLastWriteNextOutput rb)"

text \<open>Sample \<open>k\<close> of the frame at the read cursor, as the \<^verbatim>\<open>long\<close> that line 103 adds.\<close>

definition frameAt :: "AudioRingBuffer \<Rightarrow> nat \<Rightarrow> long" where
  "frameAt rb k = scast (buffer rb (nextOutput rb + k))"

text \<open>What a buffer adds to sample \<open>k\<close> of the master mix in one pass.\<close>

definition contribution :: "AudioRingBuffer \<Rightarrow> nat \<Rightarrow> long" where
  "contribution rb k = (if playable rb then frameAt rb k else 0)"

text \<open>A ring buffer after the loop over \<open>b\<close> has visited it.\<close>

definition mixedBuffer :: "AudioRingBuffer \<Rightarrow> AudioRingBuffer" where
  "mixedBuffer rb =
     (if playable rb then advanceOutput (rb\<lparr>started := True\<rparr>)
      else if endOfLastWrite rb \<noteq> None \<and> started rb then rb\<lparr>started := False\<rparr>
      else rb)"

text \<open>The read cursor leaves a whole frame before the end of the storage, and a whole frame
  behind it unless it stands at the start: the reads of lines 103 and 128 stay inside the
  storage.\<close>

definition readable :: "AudioRingBuffer \<Rightarrow> bool" where
  "readable rb =
     (nextOutput rb + BUFFER_LENGTH_SAMPLES \<le> RING_BUFFER_SAMPLES
      \<and> (nextOutput rb = 0 \<or> BUFFER_LENGTH_SAMPLES \<le> nextOutput rb))"

text \<open>The test of line 116.\<close>

definition recentlySeen :: "AgentList \<Rightarrow> timeval \<Rightarrow> bool" where
  "recentlySeen ag sendTime \<longleftrightarrow> diffclock (time ag) sendTime \<le> of_int LOGOFF_CHECK_INTERVAL"

text \<open>Lines 120--122: the offset of the frame before the read cursor \<open>r\<close>.\<close>

definition previousFrame :: "nat \<Rightarrow> nat" where
  "previousFrame r =
     (if r = 0 then RING_BUFFER_SAMPLES - BUFFER_LENGTH_SAMPLES else r - BUFFER_LENGTH_SAMPLES)"

text \<open>The packet lines 118--150 compose for agent \<open>a\<close> from the state after the loop over \<open>b\<close>.\<close>

definition clientPacket :: "audio_mixer \<Rightarrow> (nat \<Rightarrow> long) \<Rightarrow> nat \<Rightarrow> packet" where
  "clientPacket s masterMix a =
     \<lparr>dest = a, destAddress = address (agents s a), destPort = port (agents s a),
      payload = map (\<lambda>as. shortSample
          (if bufferTransmitted (agents s a)
           then masterMix as
             - scast (buffer (sourceBuffers s a) (previousFrame (nextOutput (sourceBuffers s a)) + as))
           else masterMix as)) [0..<BUFFER_LENGTH_SAMPLES]\<rparr>"

text \<open>The states on which a pass stays inside every array: the agents fit the source buffers
  and every read cursor is \<open>readable\<close>.\<close>

definition cursorsInRange :: "audio_mixer \<Rightarrow> bool" where
  "cursorsInRange s \<longleftrightarrow>
     numAgents s \<le> MAX_SOURCE_BUFFERS
     \<and> list_all (\<lambda>b. readable (sourceBuffers s b)) [0..<MAX_SOURCE_BUFFERS]"

text \<open>Sample \<open>k\<close> of the master mix of a pass started in state \<open>s\<close>.\<close>

definition mixOf :: "audio_mixer \<Rightarrow> nat \<Rightarrow> long" where
  "mixOf s k = sum_list (map (\<lambda>b. contribution (sourceBuffers s b) k) [0..<MAX_SOURCE_BUFFERS])"

text \<open>Sample \<open>k\<close> of the mix sent to agent \<open>a\<close> in a pass started in state \<open>s\<close>: the master
  mix, minus the frame before the read cursor when the buffer is mixed in this pass or
  was mixed since the last send.\<close>

definition clientSample :: "audio_mixer \<Rightarrow> nat \<Rightarrow> nat \<Rightarrow> int16_t" where
  "clientSample s a k =
     shortSample
       (if playable (sourceBuffers s a) \<or> bufferTransmitted (agents s a)
        then mixOf s k
          - scast (buffer (sourceBuffers s a)
                     (previousFrame (nextOutput (mixedBuffer (sourceBuffers s a))) + k))
        else mixOf s k)"

text \<open>The packet a pass started in state \<open>s\<close> sends to agent \<open>a\<close>.\<close>

definition mixPacket :: "audio_mixer \<Rightarrow> nat \<Rightarrow> packet" where
  "mixPacket s a =
     \<lparr>dest = a, destAddress = address (agents s a), destPort = port (agents s a),
      payload = map (clientSample s a) [0..<BUFFER_LENGTH_SAMPLES]\<rparr>"

text \<open>A ring buffer into which \<^verbatim>\<open>addAgent\<close> can copy a frame without leaving the storage: the
  write cursor, after lines 200--207, leaves room for a frame.\<close>

definition writable :: "AudioRingBuffer \<Rightarrow> bool" where
  "writable rb =
     (case endOfLastWrite (prepareWrite rb) of
        None \<Rightarrow> False
      | Some w \<Rightarrow> w + BUFFER_LENGTH_SAMPLES \<le> RING_BUFFER_SAMPLES)"

text \<open>Lines 200--207 again: the offset at which line 209 copies the frame. It is 0 for a
  buffer never written and for a buffer that line 202 empties, and the write cursor
  otherwise.\<close>

definition writeOffset :: "AudioRingBuffer \<Rightarrow> nat" where
  "writeOffset rb =
     (case endOfLastWrite rb of
        None \<Rightarrow> 0
      | Some w \<Rightarrow>
          if RING_BUFFER_SAMPLES - BUFFER_LENGTH_SAMPLES < diffLastWriteNextOutput rb then 0
          else w)"

text \<open>Cursors as the code itself sets them: at a multiple of the frame length, inside the
  storage. \<^verbatim>\<open>addAgent\<close> and the mixing loop only ever move a cursor to the start of the
  storage or one frame on.\<close>

definition frameAligned :: "AudioRingBuffer \<Rightarrow> bool" where
  "frameAligned rb \<longleftrightarrow>
     BUFFER_LENGTH_SAMPLES dvd nextOutput rb \<and> nextOutput rb < RING_BUFFER_SAMPLES
     \<and> (case endOfLastWrite rb of
          None \<Rightarrow> True
        | Some w \<Rightarrow> BUFFER_LENGTH_SAMPLES dvd w \<and> w < RING_BUFFER_SAMPLES)"

definition framesAligned :: "audio_mixer \<Rightarrow> bool" where
  "framesAligned s \<longleftrightarrow>
     numAgents s \<le> MAX_SOURCE_BUFFERS
     \<and> list_all (\<lambda>b. frameAligned (sourceBuffers s b)) [0..<MAX_SOURCE_BUFFERS]"

section \<open>Example states\<close>

text \<open>Concrete agents, ring buffers, mixers and times on which the properties below are
  instantiated.\<close>

definition exampleTime :: "int \<Rightarrow> timeval" where
  "exampleTime sec = \<lparr>tv_sec = sec, tv_usec = 0\<rparr>"



definition exampleAgent :: "nat \<Rightarrow> AgentList" where
  "exampleAgent i =
     \<lparr>address = ''10.0.0.1'', port = 5000 + i, active = True, time = exampleTime 100,
      bufferTransmitted = False\<rparr>"

text \<open>
  Modelled from the spec: the constructor of \<^verbatim>\<open>AudioRingBuffer\<close> is not among the sources.
  A new ring buffer is in the spec's initial state Buffering and holds no backlog; it has
  received nothing, which lines 91 and 200 of main.cpp read as \<^verbatim>\<open>endOfLastWrite == NULL\<close>,
  and its read cursor stands at the start of the storage. What the storage of a new buffer
  holds is not said anywhere; the example takes 0.
\<close>

definition emptyBuffer :: AudioRingBuffer where
  "emptyBuffer = \<lparr>buffer = (\<lambda>k. 0), nextOutput = 0, endOfLastWrite = None, started = False\<rparr>"

text \<open>A ring buffer full of the sample 100, with read cursor \<open>r\<close> and write cursor \<open>w\<close>.\<close>

definition exampleBuffer :: "nat \<Rightarrow> nat \<Rightarrow> bool \<Rightarrow> AudioRingBuffer" where
  "exampleBuffer r w st =
     \<lparr>buffer = (\<lambda>k. 100), nextOutput = r, endOfLastWrite = Some w, started = st\<rparr>"

text \<open>An entry of the global \<^verbatim>\<open>agents\<close> array that was never written.\<close>

definition unusedAgent :: AgentList where
  "unusedAgent =
     \<lparr>address = [], port = 0, active = False, time = \<lparr>tv_sec = 0, tv_usec = 0\<rparr>,
      bufferTransmitted = False\<rparr>"

text \<open>A mixer with \<open>n\<close> agents whose slot 0 has the ring buffer \<open>rb\<close>; the other ring
  buffers are new.\<close>

definition exampleMixer :: "nat \<Rightarrow> AudioRingBuffer \<Rightarrow> audio_mixer" where
  "exampleMixer n rb =
     \<lparr>agents = (\<lambda>i. if i < n then exampleAgent i else unusedAgent), numAgents = n,
      sourceBuffers = (\<lambda>b. if b = 0 then rb else emptyBuffer)\<rparr>"

text \<open>The mixer when \<^verbatim>\<open>main\<close> has built the ring buffers (lines 275--277) and no frame has
  arrived.\<close>

definition freshMixer :: audio_mixer where
  "freshMixer = \<lparr>agents = (\<lambda>i. unusedAgent), numAgents = 0, sourceBuffers = (\<lambda>b. emptyBuffer)\<rparr>"

text \<open>The state after \<open>n\<close> admissions into the fresh mixer, all at second 100 and from the
  address 10.0.0.1, the \<open>j\<close>-th from port \<open>ports j\<close>, each with a frame of the sample 100.\<close>

fun admissions :: "(nat \<Rightarrow> nat) \<Rightarrow> nat \<Rightarrow> fault + audio_mixer" where
  "admissions ports 0 = Inr freshMixer"
| "admissions ports (Suc n) =
     (case admissions ports n of
        Inl e \<Rightarrow> Inl e
      | Inr s \<Rightarrow>
          (case addAgent s ''10.0.0.1'' (ports n) (\<lambda>k. 100) (exampleTime 100) of
             Inl e \<Rightarrow> Inl e
           | Inr (s', is_new) \<Rightarrow> Inr s'))"

text \<open>One agent, whose ring buffer holds \<open>n\<close> unread frames of the sample 100 and has not
  started.\<close>

definition heldFrames :: "nat \<Rightarrow> audio_mixer \<Rightarrow> bool" where
  "heldFrames n s \<longleftrightarrow>
     numAgents s = 1 \<and> agents s 0 = exampleAgent 0
     \<and> nextOutput (sourceBuffers s 0) = 0
     \<and> endOfLastWrite (sourceBuffers s 0) = Some (BUFFER_LENGTH_SAMPLES * n)
     \<and> \<not> started (sourceBuffers s 0)
     \<and> (\<forall>k<BUFFER_LENGTH_SAMPLES * n. buffer (sourceBuffers s 0) k = 100)
     \<and> (\<forall>b. b \<noteq> 0 \<longrightarrow> sourceBuffers s b = emptyBuffer)"

section \<open>The states the program reaches\<close>

text \<open>
  From the mixer that has received nothing, by calls of \<^verbatim>\<open>addAgent\<close> and passes of the
  mixing loop that stay inside the arrays, in any order and with any arguments.
\<close>

inductive reach :: "audio_mixer \<Rightarrow> bool" where
  reach_fresh: "reach freshMixer"
| reach_frame: "reach s \<Longrightarrow> addAgent s a p audioData now = Inr (s', is_new) \<Longrightarrow> reach s'"
| reach_pass: "reach s \<Longrightarrow> sendBuffer_pass s t = Inr (s', mm, out) \<Longrightarrow> reach s'"

section \<open>Sizes and fields\<close>

lemma BUFFER_LENGTH_SAMPLES_eq: "BUFFER_LENGTH_SAMPLES = 512"
  by (simp add: BUFFER_LENGTH_SAMPLES_def BUFFER_LENGTH_BYTES_def)

lemma RING_BUFFER_SAMPLES_eq: "RING_BUFFER_SAMPLES = 5120"
  by (simp add: RING_BUFFER_SAMPLES_def RING_BUFFER_FRAMES_def BUFFER_LENGTH_SAMPLES_eq)

section \<open>Clipping\<close>

lemma sint_MAX_SAMPLE_VALUE: "sint MAX_SAMPLE_VALUE = 32767"
  by (simp add: MAX_SAMPLE_VALUE_def)

lemma sint_MIN_SAMPLE_VALUE: "sint MIN_SAMPLE_VALUE = - 32768"
  by (simp add: MIN_SAMPLE_VALUE_def)

lemma sint_scast_16: "- 32768 \<le> sint (x :: long) \<Longrightarrow> sint x \<le> 32767 \<Longrightarrow> sint (scast x :: int16_t) = sint x"
  by (simp add: signed_scast_eq signed_take_bit_int_eq_self)

text \<open>
  C5. The clipping of a composed sample saturates: the signed value of the 16-bit sample
  is the maximum sample value when the wide value is above it, the minimum sample value
  when the wide value is below it, and the wide value itself otherwise. The wide value
  is read as a signed 64-bit number, so the result never wraps around.
\<close>

theorem shortSample_saturates:
  "sint (shortSample x) =
     (if sint MAX_SAMPLE_VALUE < sint x then sint MAX_SAMPLE_VALUE
      else if sint x < sint MIN_SAMPLE_VALUE then sint MIN_SAMPLE_VALUE
      else sint x)"
proof -
  have hi: "sint (scast MAX_SAMPLE_VALUE :: int16_t) = 32767"
    by (simp add: sint_scast_16 sint_MAX_SAMPLE_VALUE)
  have lo: "sint (scast MIN_SAMPLE_VALUE :: int16_t) = - 32768"
    by (simp add: sint_scast_16 sint_MIN_SAMPLE_VALUE)
  show ?thesis
    unfolding shortSample_def word_sless_alt
    by (simp add: hi lo sint_scast_16 sint_MAX_SAMPLE_VALUE sint_MIN_SAMPLE_VALUE)
qed

section \<open>Pacing\<close>








section \<open>What one pass of the mixing loop computes\<close>

lemma mixSource_Inr:
  assumes "nextOutput (sourceBuffers s b) + BUFFER_LENGTH_SAMPLES \<le> RING_BUFFER_SAMPLES"
  shows "\<exists>s' mm'. mixSource b (s, mm) = Inr (s', mm')
     \<and> sourceBuffers s' = (sourceBuffers s)(b := mixedBuffer (sourceBuffers s b))
     \<and> numAgents s' = numAgents s
     \<and> agents s' = (if playable (sourceBuffers s b)
                     then (agents s)(b := (agents s b)\<lparr>bufferTransmitted := True\<rparr>)
                     else agents s)
     \<and> mm' = (\<lambda>k. if k < BUFFER_LENGTH_SAMPLES then mm k + contribution (sourceBuffers s b) k else mm k)"
  using assms
  by (auto simp: mixSource_def playable_def mixedBuffer_def contribution_def frameAt_def Let_def
      split: option.splits)

lemma forSources_Inr:
  assumes "distinct bs"
    and "\<forall>b\<in>set bs. nextOutput (sourceBuffers s b) + BUFFER_LENGTH_SAMPLES \<le> RING_BUFFER_SAMPLES"
  shows "\<exists>s' mm'. forSources bs (s, mm) = Inr (s', mm')
     \<and> (\<forall>b. sourceBuffers s' b
            = (if b \<in> set bs then mixedBuffer (sourceBuffers s b) else sourceBuffers s b))
     \<and> numAgents s' = numAgents s
     \<and> (\<forall>a. agents s' a
            = (if a \<in> set bs \<and> playable (sourceBuffers s a)
               then (agents s a)\<lparr>bufferTransmitted := True\<rparr> else agents s a))
     \<and> (\<forall>k. mm' k
            = (if k < BUFFER_LENGTH_SAMPLES
               then mm k + sum_list (map (\<lambda>b. contribution (sourceBuffers s b) k) bs)
               else mm k))"
  using assms
proof (induction bs arbitrary: s mm)
  case Nil
  then show ?case by simp
next
  case (Cons b bs)
  from Cons.prems have rb: "nextOutput (sourceBuffers s b) + BUFFER_LENGTH_SAMPLES \<le> RING_BUFFER_SAMPLES"
    by simp
  from mixSource_Inr [OF rb, of mm] obtain s1 mm1 where
    step: "mixSource b (s, mm) = Inr (s1, mm1)"
    and sb1: "sourceBuffers s1 = (sourceBuffers s)(b := mixedBuffer (sourceBuffers s b))"
    and n1: "numAgents s1 = numAgents s"
    and ag1: "agents s1 = (if playable (sourceBuffers s b)
                     then (agents s)(b := (agents s b)\<lparr>bufferTransmitted := True\<rparr>)
                     else agents s)"
    and mm1: "mm1 = (\<lambda>k. if k < BUFFER_LENGTH_SAMPLES then mm k + contribution (sourceBuffers s b) k else mm k)"
    by blast
  from Cons.prems have nb: "b \<notin> set bs" and dist: "distinct bs" by simp_all
  have same: "\<And>c. c \<in> set bs \<Longrightarrow> sourceBuffers s1 c = sourceBuffers s c"
    using nb by (auto simp: sb1)
  have rd: "\<forall>c\<in>set bs. nextOutput (sourceBuffers s1 c) + BUFFER_LENGTH_SAMPLES \<le> RING_BUFFER_SAMPLES"
    using Cons.prems same by simp
  from Cons.IH [OF dist rd, of mm1] obtain s' mm' where
    rest: "forSources bs (s1, mm1) = Inr (s', mm')"
    and sb': "\<forall>c. sourceBuffers s' c
            = (if c \<in> set bs then mixedBuffer (sourceBuffers s1 c) else sourceBuffers s1 c)"
    and n': "numAgents s' = numAgents s1"
    and ag': "\<forall>a. agents s' a
            = (if a \<in> set bs \<and> playable (sourceBuffers s1 a)
               then (agents s1 a)\<lparr>bufferTransmitted := True\<rparr> else agents s1 a)"
    and mm': "\<forall>k. mm' k
            = (if k < BUFFER_LENGTH_SAMPLES
               then mm1 k + sum_list (map (\<lambda>c. contribution (sourceBuffers s1 c) k) bs)
               else mm1 k)"
    by blast
  have sums: "\<And>k. map (\<lambda>c. contribution (sourceBuffers s1 c) k) bs
      = map (\<lambda>c. contribution (sourceBuffers s c) k) bs"
    using same by simp
  have "forSources (b # bs) (s, mm) = Inr (s', mm')"
    by (simp add: step rest)
  moreover have "\<forall>c. sourceBuffers s' c
      = (if c \<in> set (b # bs) then mixedBuffer (sourceBuffers s c) else sourceBuffers s c)"
    using sb' nb by (auto simp: sb1)
  moreover have "numAgents s' = numAgents s"
    by (simp add: n' n1)
  moreover have "\<forall>a. agents s' a
      = (if a \<in> set (b # bs) \<and> playable (sourceBuffers s a)
         then (agents s a)\<lparr>bufferTransmitted := True\<rparr> else agents s a)"
    using ag' nb by (auto simp: sb1 ag1)
  moreover have "\<forall>k. mm' k
      = (if k < BUFFER_LENGTH_SAMPLES
         then mm k + sum_list (map (\<lambda>c. contribution (sourceBuffers s c) k) (b # bs))
         else mm k)"
    using mm' by (simp add: mm1 sums add.assoc)
  ultimately show ?case by blast
qed

lemma sendAgent_Inr:
  assumes "a < MAX_AGENTS"
    and "bufferTransmitted (agents s a) \<Longrightarrow> recentlySeen (agents s a) t \<Longrightarrow>
           a < MAX_SOURCE_BUFFERS \<and> (nextOutput (sourceBuffers s a) = 0
             \<or> BUFFER_LENGTH_SAMPLES \<le> nextOutput (sourceBuffers s a)
               \<and> nextOutput (sourceBuffers s a) \<le> RING_BUFFER_SAMPLES)"
  shows "\<exists>s' out'. sendAgent t mm a (s, out) = Inr (s', out')
     \<and> sourceBuffers s' = sourceBuffers s
     \<and> numAgents s' = numAgents s
     \<and> (\<forall>c. c \<noteq> a \<longrightarrow> agents s' c = agents s c)
     \<and> out' = out @ (if recentlySeen (agents s a) t then [clientPacket s mm a] else [])"
  using assms
  by (auto simp: sendAgent_def recentlySeen_def clientPacket_def previousFrame_def Let_def)

lemma forAgents_Inr:
  assumes "distinct as"
    and "\<forall>a\<in>set as. a < MAX_AGENTS"
    and "\<forall>a\<in>set as. bufferTransmitted (agents s a) \<longrightarrow> recentlySeen (agents s a) t \<longrightarrow>
           a < MAX_SOURCE_BUFFERS \<and> (nextOutput (sourceBuffers s a) = 0
             \<or> BUFFER_LENGTH_SAMPLES \<le> nextOutput (sourceBuffers s a)
               \<and> nextOutput (sourceBuffers s a) \<le> RING_BUFFER_SAMPLES)"
  shows "\<exists>s' out'. forAgents t mm as (s, out) = Inr (s', out')
     \<and> sourceBuffers s' = sourceBuffers s
     \<and> numAgents s' = numAgents s
     \<and> (\<forall>c. c \<notin> set as \<longrightarrow> agents s' c = agents s c)
     \<and> out' = out @ map (clientPacket s mm) (filter (\<lambda>a. recentlySeen (agents s a) t) as)"
  using assms
proof (induction as arbitrary: s out)
  case Nil
  then show ?case by simp
next
  case (Cons a as)
  have pre: "a < MAX_AGENTS" using Cons.prems by simp
  have pre2: "bufferTransmitted (agents s a) \<Longrightarrow> recentlySeen (agents s a) t \<Longrightarrow>
           a < MAX_SOURCE_BUFFERS \<and> (nextOutput (sourceBuffers s a) = 0
             \<or> BUFFER_LENGTH_SAMPLES \<le> nextOutput (sourceBuffers s a)
               \<and> nextOutput (sourceBuffers s a) \<le> RING_BUFFER_SAMPLES)"
    using Cons.prems by simp
  from sendAgent_Inr [where a = a and s = s and t = t and mm = mm and out = out, OF pre pre2] obtain s1 out1 where
    step: "sendAgent t mm a (s, out) = Inr (s1, out1)"
    and sb1: "sourceBuffers s1 = sourceBuffers s"
    and n1: "numAgents s1 = numAgents s"
    and ag1: "\<forall>c. c \<noteq> a \<longrightarrow> agents s1 c = agents s c"
    and out1: "out1 = out @ (if recentlySeen (agents s a) t then [clientPacket s mm a] else [])"
    by blast
  from Cons.prems have na: "a \<notin> set as" and dist: "distinct as" by simp_all
  have same: "\<And>c. c \<in> set as \<Longrightarrow> agents s1 c = agents s c"
    using na ag1 by auto
  have p1: "\<forall>c\<in>set as. c < MAX_AGENTS" using Cons.prems by simp
  have p2: "\<forall>c\<in>set as. bufferTransmitted (agents s1 c) \<longrightarrow> recentlySeen (agents s1 c) t \<longrightarrow>
           c < MAX_SOURCE_BUFFERS \<and> (nextOutput (sourceBuffers s1 c) = 0
             \<or> BUFFER_LENGTH_SAMPLES \<le> nextOutput (sourceBuffers s1 c)
               \<and> nextOutput (sourceBuffers s1 c) \<le> RING_BUFFER_SAMPLES)"
    using Cons.prems(3) same by (simp add: sb1)
  from Cons.IH [where s = s1 and out = out1, OF dist p1 p2] obtain s' out' where
    rest: "forAgents t mm as (s1, out1) = Inr (s', out')"
    and sb': "sourceBuffers s' = sourceBuffers s1"
    and n': "numAgents s' = numAgents s1"
    and ag': "\<forall>c. c \<notin> set as \<longrightarrow> agents s' c = agents s1 c"
    and out': "out' = out1 @ map (clientPacket s1 mm) (filter (\<lambda>c. recentlySeen (agents s1 c) t) as)"
    by blast
  have f: "filter (\<lambda>c. recentlySeen (agents s1 c) t) as = filter (\<lambda>c. recentlySeen (agents s c) t) as"
    using same by (auto intro: filter_cong)
  have m: "map (clientPacket s1 mm) (filter (\<lambda>c. recentlySeen (agents s c) t) as)
      = map (clientPacket s mm) (filter (\<lambda>c. recentlySeen (agents s c) t) as)"
    using same by (auto simp: clientPacket_def sb1)
  have "forAgents t mm (a # as) (s, out) = Inr (s', out')"
    by (simp add: step rest)
  moreover have "sourceBuffers s' = sourceBuffers s" by (simp add: sb' sb1)
  moreover have "numAgents s' = numAgents s" by (simp add: n' n1)
  moreover have "\<forall>c. c \<notin> set (a # as) \<longrightarrow> agents s' c = agents s c"
    using ag' ag1 by auto
  moreover have "out' = out @ map (clientPacket s mm) (filter (\<lambda>c. recentlySeen (agents s c) t) (a # as))"
    by (simp add: out' out1 f m)
  ultimately show ?case by blast
qed

lemma cursorsInRange_readable:
  "cursorsInRange s \<Longrightarrow> b < MAX_SOURCE_BUFFERS \<Longrightarrow> readable (sourceBuffers s b)"
  by (simp add: cursorsInRange_def list_all_iff)

lemma buffer_mixedBuffer: "buffer (mixedBuffer rb) = buffer rb"
  by (simp add: mixedBuffer_def advanceOutput_def Let_def)

lemma nextOutput_mixedBuffer_range:
  "readable rb \<Longrightarrow>
     nextOutput (mixedBuffer rb) = 0
     \<or> BUFFER_LENGTH_SAMPLES \<le> nextOutput (mixedBuffer rb)
       \<and> nextOutput (mixedBuffer rb) \<le> RING_BUFFER_SAMPLES"
  by (auto simp: readable_def mixedBuffer_def advanceOutput_def Let_def)

lemma MAX_SOURCE_BUFFERS_le: "MAX_SOURCE_BUFFERS \<le> MAX_AGENTS"
  by (simp add: MAX_SOURCE_BUFFERS_def MAX_AGENTS_def)

lemma sendBuffer_pass_Inr:
  assumes safe: "cursorsInRange s"
  shows "\<exists>s'. sendBuffer_pass s t
       = Inr (s', map (mixOf s) [0..<BUFFER_LENGTH_SAMPLES],
              map (mixPacket s) (filter (\<lambda>a. recentlySeen (agents s a) t) [0..<numAgents s]))
     \<and> (\<forall>b<MAX_SOURCE_BUFFERS. sourceBuffers s' b = mixedBuffer (sourceBuffers s b))
     \<and> (\<forall>b. MAX_SOURCE_BUFFERS \<le> b \<longrightarrow> sourceBuffers s' b = sourceBuffers s b)
     \<and> numAgents s' = numAgents s"
proof -
  have n: "numAgents s \<le> MAX_SOURCE_BUFFERS"
    using safe by (simp add: cursorsInRange_def)
  have rd: "\<forall>b\<in>set [0..<MAX_SOURCE_BUFFERS].
      nextOutput (sourceBuffers s b) + BUFFER_LENGTH_SAMPLES \<le> RING_BUFFER_SAMPLES"
    using cursorsInRange_readable [OF safe] by (simp add: readable_def)
  from forSources_Inr [where bs = "[0..<MAX_SOURCE_BUFFERS]" and s = s and mm = "\<lambda>wb. 0", OF _ rd]
  obtain s1 mm1 where
    l1: "forSources [0..<MAX_SOURCE_BUFFERS] (s, \<lambda>wb. 0) = Inr (s1, mm1)"
    and sb1: "\<forall>b. sourceBuffers s1 b
            = (if b \<in> set [0..<MAX_SOURCE_BUFFERS] then mixedBuffer (sourceBuffers s b)
               else sourceBuffers s b)"
    and n1: "numAgents s1 = numAgents s"
    and ag1: "\<forall>a. agents s1 a
            = (if a \<in> set [0..<MAX_SOURCE_BUFFERS] \<and> playable (sourceBuffers s a)
               then (agents s a)\<lparr>bufferTransmitted := True\<rparr> else agents s a)"
    and mm1: "\<forall>k. mm1 k
            = (if k < BUFFER_LENGTH_SAMPLES
               then 0 + sum_list (map (\<lambda>b. contribution (sourceBuffers s b) k) [0..<MAX_SOURCE_BUFFERS])
               else 0)"
    by auto
  have p1: "\<forall>a\<in>set [0..<numAgents s1]. a < MAX_AGENTS"
    using n MAX_SOURCE_BUFFERS_le by (simp add: n1)
  have p2: "\<forall>a\<in>set [0..<numAgents s1].
      bufferTransmitted (agents s1 a) \<longrightarrow> recentlySeen (agents s1 a) t \<longrightarrow>
        a < MAX_SOURCE_BUFFERS \<and> (nextOutput (sourceBuffers s1 a) = 0
          \<or> BUFFER_LENGTH_SAMPLES \<le> nextOutput (sourceBuffers s1 a)
            \<and> nextOutput (sourceBuffers s1 a) \<le> RING_BUFFER_SAMPLES)"
  proof (intro ballI impI)
    fix a assume "a \<in> set [0..<numAgents s1]"
    then have a: "a < MAX_SOURCE_BUFFERS" using n by (simp add: n1)
    then have "sourceBuffers s1 a = mixedBuffer (sourceBuffers s a)"
      using sb1 by simp
    with nextOutput_mixedBuffer_range [OF cursorsInRange_readable [OF safe a]] a
    show "a < MAX_SOURCE_BUFFERS \<and> (nextOutput (sourceBuffers s1 a) = 0
          \<or> BUFFER_LENGTH_SAMPLES \<le> nextOutput (sourceBuffers s1 a)
            \<and> nextOutput (sourceBuffers s1 a) \<le> RING_BUFFER_SAMPLES)"
      by simp
  qed
  from forAgents_Inr [where as = "[0..<numAgents s1]" and s = s1 and t = t and mm = mm1
      and out = "[]", OF _ p1 p2]
  obtain s2 out2 where
    l2: "forAgents t mm1 [0..<numAgents s1] (s1, []) = Inr (s2, out2)"
    and sb2: "sourceBuffers s2 = sourceBuffers s1"
    and n2: "numAgents s2 = numAgents s1"
    and out2: "out2 = map (clientPacket s1 mm1)
                 (filter (\<lambda>a. recentlySeen (agents s1 a) t) [0..<numAgents s1])"
    by auto
  have tm: "\<And>a. recentlySeen (agents s1 a) t = recentlySeen (agents s a) t"
    using ag1 by (simp add: recentlySeen_def)
  have pk: "\<And>a. a < numAgents s \<Longrightarrow> clientPacket s1 mm1 a = mixPacket s a"
  proof -
    fix a assume "a < numAgents s"
    then have a: "a < MAX_SOURCE_BUFFERS" using n by simp
    have sba: "sourceBuffers s1 a = mixedBuffer (sourceBuffers s a)"
      using sb1 a by simp
    have bt: "bufferTransmitted (agents s1 a)
        = (playable (sourceBuffers s a) \<or> bufferTransmitted (agents s a))"
      using ag1 a by simp
    have ad: "address (agents s1 a) = address (agents s a)" "port (agents s1 a) = port (agents s a)"
      using ag1 by simp_all
    have mk: "\<And>k. k < BUFFER_LENGTH_SAMPLES \<Longrightarrow> mm1 k = mixOf s k"
      using mm1 by (simp add: mixOf_def)
    show "clientPacket s1 mm1 a = mixPacket s a"
      unfolding clientPacket_def mixPacket_def clientSample_def
      by (simp add: ad sba bt buffer_mixedBuffer mk)
  qed
  have out: "out2 = map (mixPacket s) (filter (\<lambda>a. recentlySeen (agents s a) t) [0..<numAgents s])"
    unfolding out2 n1 tm by (rule map_cong) (auto simp: pk)
  have mm: "map mm1 [0..<BUFFER_LENGTH_SAMPLES] = map (mixOf s) [0..<BUFFER_LENGTH_SAMPLES]"
    using mm1 by (simp add: mixOf_def)
  have "sendBuffer_pass s t
       = Inr (s2, map (mixOf s) [0..<BUFFER_LENGTH_SAMPLES],
              map (mixPacket s) (filter (\<lambda>a. recentlySeen (agents s a) t) [0..<numAgents s]))"
    using l2 by (simp add: sendBuffer_pass_def l1 n1 out mm)
  moreover have "\<forall>b<MAX_SOURCE_BUFFERS. sourceBuffers s2 b = mixedBuffer (sourceBuffers s b)"
    using sb1 by (simp add: sb2)
  moreover have "\<forall>b. MAX_SOURCE_BUFFERS \<le> b \<longrightarrow> sourceBuffers s2 b = sourceBuffers s b"
    using sb1 by (simp add: sb2)
  moreover have "numAgents s2 = numAgents s" by (simp add: n2 n1)
  ultimately show ?thesis by blast
qed

section \<open>Cursor arithmetic\<close>

lemma diff_Some:
  "endOfLastWrite rb = Some w \<Longrightarrow>
     diffLastWriteNextOutput rb = (w + 5120 - nextOutput rb) mod 5120"
  by (simp add: diffLastWriteNextOutput_def RING_BUFFER_SAMPLES_eq)

lemma backlog_cases:
  fixes r w C :: nat
  assumes "w < C"
  shows "(w + C - r) mod C = (if r \<le> w then w - r else w + C - r)"
proof (cases "r \<le> w")
  case True
  then have "w + C - r = (w - r) + C" by simp
  then have "(w + C - r) mod C = (w - r) mod C" by (simp only: mod_add_self2)
  also have "\<dots> = w - r" using assms by (intro mod_less) simp
  finally show ?thesis using True by simp
next
  case False
  with assms have "w + C - r < C" by simp
  then have "(w + C - r) mod C = w + C - r" by (rule mod_less)
  then show ?thesis using False by simp
qed

lemma diff_less: "diffLastWriteNextOutput rb < RING_BUFFER_SAMPLES"
  by (simp add: diffLastWriteNextOutput_def RING_BUFFER_SAMPLES_eq split: option.splits)

lemma writeFrame_fields:
  "endOfLastWrite (writeFrame w d rb) = Some (if 5120 \<le> w + 512 then 0 else w + 512)"
  "nextOutput (writeFrame w d rb) = nextOutput rb"
  "started (writeFrame w d rb) = started rb"
  "buffer (writeFrame w d rb) k = (if w \<le> k \<and> k < w + 512 then d (k - w) else buffer rb k)"
  by (simp_all add: writeFrame_def BUFFER_LENGTH_SAMPLES_eq RING_BUFFER_SAMPLES_eq)

lemma advanceOutput_fields:
  "nextOutput (advanceOutput rb) = (if 5120 \<le> nextOutput rb + 512 then 0 else nextOutput rb + 512)"
  "endOfLastWrite (advanceOutput rb) = endOfLastWrite rb"
  "started (advanceOutput rb) = started rb"
  "buffer (advanceOutput rb) = buffer rb"
  by (simp_all add: advanceOutput_def Let_def BUFFER_LENGTH_SAMPLES_eq RING_BUFFER_SAMPLES_eq)




section \<open>Frame-aligned cursors\<close>

text \<open>
  \<^verbatim>\<open>addAgent\<close> and the mixing loop only ever move a cursor to the start of the storage
  or one frame on, so the cursors they produce are multiples of the frame length. For
  such cursors a backlog is a multiple of the frame length: it is never equal to
  \<open>BUFFER_LENGTH_SAMPLES + JITTER_BUFFER_SAMPLES\<close> = 953, a backlog below a frame is 0, and
  the backlog is never more than the capacity less one frame.
\<close>

lemma aligned_room:
  fixes x :: nat
  assumes "512 dvd x" and "x < 5120"
  shows "x + 512 \<le> 5120"
proof -
  from assms(1) obtain k where k: "x = 512 * k" by (rule dvdE)
  with assms(2) have "k < 10" by simp
  then have "k + 1 \<le> 10" by simp
  then have "512 * (k + 1) \<le> 512 * (10 :: nat)" by (rule mult_le_mono2)
  with k show ?thesis by simp
qed

lemma aligned_small:
  fixes x :: nat
  assumes "512 dvd x" and "x < 512"
  shows "x = 0"
proof -
  from assms(1) obtain k where k: "x = 512 * k" by (rule dvdE)
  with assms(2) have "k = 0" by simp
  with k show ?thesis by simp
qed

lemma frameAligned_backlog:
  assumes "frameAligned rb"
  shows "BUFFER_LENGTH_SAMPLES dvd diffLastWriteNextOutput rb"
proof (cases "endOfLastWrite rb")
  case None
  then show ?thesis by (simp add: diffLastWriteNextOutput_def)
next
  case (Some w)
  with assms have w: "512 dvd w" "w < 5120" and r: "512 dvd nextOutput rb"
    by (simp_all add: frameAligned_def BUFFER_LENGTH_SAMPLES_eq RING_BUFFER_SAMPLES_eq)
  have C: "(512 :: nat) dvd 5120" by simp
  have "512 dvd (if nextOutput rb \<le> w then w - nextOutput rb else w + 5120 - nextOutput rb)"
    using w(1) r C by (simp add: dvd_diff_nat)
  then show ?thesis
    unfolding diff_Some [OF Some] backlog_cases [OF w(2)] BUFFER_LENGTH_SAMPLES_eq .
qed

lemma frameAligned_boundary:
  assumes "frameAligned rb"
  shows "(BUFFER_LENGTH_SAMPLES + JITTER_BUFFER_SAMPLES < diffLastWriteNextOutput rb)
     = (BUFFER_LENGTH_SAMPLES + JITTER_BUFFER_SAMPLES \<le> diffLastWriteNextOutput rb)"
proof -
  have "diffLastWriteNextOutput rb \<noteq> 953"
  proof
    assume "diffLastWriteNextOutput rb = 953"
    with frameAligned_backlog [OF assms] have "(512 :: nat) dvd 953"
      by (simp add: BUFFER_LENGTH_SAMPLES_eq)
    then show False by simp
  qed
  then show ?thesis
    by (auto simp: BUFFER_LENGTH_SAMPLES_eq JITTER_BUFFER_SAMPLES_def)
qed

lemma frameAligned_starved:
  assumes al: "frameAligned rb" and w: "endOfLastWrite rb = Some w"
    and starved: "diffLastWriteNextOutput rb < BUFFER_LENGTH_SAMPLES"
  shows "nextOutput rb = w"
proof -
  from al w have wl: "w < 5120" and rl: "nextOutput rb < 5120"
    by (simp_all add: frameAligned_def RING_BUFFER_SAMPLES_eq)
  from frameAligned_backlog [OF al] starved have "diffLastWriteNextOutput rb = 0"
    by (intro aligned_small) (simp_all add: BUFFER_LENGTH_SAMPLES_eq)
  then have "(if nextOutput rb \<le> w then w - nextOutput rb else w + 5120 - nextOutput rb) = 0"
    unfolding diff_Some [OF w] backlog_cases [OF wl] .
  with rl show ?thesis by (simp split: if_splits)
qed

lemma frameAligned_room:
  assumes "frameAligned rb"
  shows "diffLastWriteNextOutput rb \<le> RING_BUFFER_SAMPLES - BUFFER_LENGTH_SAMPLES"
proof -
  have "diffLastWriteNextOutput rb + 512 \<le> 5120"
    using frameAligned_backlog [OF assms] diff_less [of rb]
    by (intro aligned_room) (simp_all add: BUFFER_LENGTH_SAMPLES_eq RING_BUFFER_SAMPLES_eq)
  then show ?thesis
    by (simp add: BUFFER_LENGTH_SAMPLES_eq RING_BUFFER_SAMPLES_eq)
qed

lemma frameAligned_readable: "frameAligned rb \<Longrightarrow> readable rb"
proof -
  assume al: "frameAligned rb"
  then have d: "512 dvd nextOutput rb" and l: "nextOutput rb < 5120"
    by (simp_all add: frameAligned_def BUFFER_LENGTH_SAMPLES_eq RING_BUFFER_SAMPLES_eq)
  have "nextOutput rb = 0 \<or> 512 \<le> nextOutput rb"
    using aligned_small [OF d] by (cases "nextOutput rb < 512") simp_all
  with aligned_room [OF d l] show "readable rb"
    by (simp add: readable_def BUFFER_LENGTH_SAMPLES_eq RING_BUFFER_SAMPLES_eq)
qed

lemma frameAligned_prepareWrite: "frameAligned rb \<Longrightarrow> prepareWrite rb = (case endOfLastWrite rb of None \<Rightarrow> rb\<lparr>endOfLastWrite := Some 0\<rparr> | Some w \<Rightarrow> rb)"
  using frameAligned_room [of rb]
  by (simp add: prepareWrite_def split: option.splits)

lemma frameAligned_writable: "frameAligned rb \<Longrightarrow> writable rb"
proof -
  assume al: "frameAligned rb"
  show "writable rb"
  proof (cases "endOfLastWrite rb")
    case None
    then show ?thesis
      by (simp add: writable_def prepareWrite_def BUFFER_LENGTH_SAMPLES_eq RING_BUFFER_SAMPLES_eq)
  next
    case (Some w)
    with al have "512 dvd w" "w < 5120"
      by (simp_all add: frameAligned_def BUFFER_LENGTH_SAMPLES_eq RING_BUFFER_SAMPLES_eq)
    then have "w + 512 \<le> 5120" by (rule aligned_room)
    then show ?thesis
      using Some by (simp add: writable_def frameAligned_prepareWrite [OF al]
          BUFFER_LENGTH_SAMPLES_eq RING_BUFFER_SAMPLES_eq)
  qed
qed

lemma aligned_advance:
  fixes x :: nat
  assumes "512 dvd x" and "x < 5120"
  shows "512 dvd (if 5120 \<le> x + 512 then 0 else x + 512)
     \<and> (if 5120 \<le> x + 512 then 0 else x + 512) < 5120"
  using assms by simp

lemma frameAligned_mixedBuffer: "frameAligned rb \<Longrightarrow> frameAligned (mixedBuffer rb)"
  using aligned_advance [of "nextOutput rb"]
  by (simp add: frameAligned_def mixedBuffer_def advanceOutput_fields
      BUFFER_LENGTH_SAMPLES_eq RING_BUFFER_SAMPLES_eq)

lemma frameAligned_admitted:
  assumes al: "frameAligned rb" and e: "endOfLastWrite (prepareWrite rb) = Some w"
  shows "frameAligned (writeFrame w audioData (prepareWrite rb))"
proof -
  have p: "frameAligned (prepareWrite rb)"
    using al by (simp add: frameAligned_prepareWrite frameAligned_def split: option.splits)
  with e have "512 dvd w" "w < 5120"
    by (simp_all add: frameAligned_def BUFFER_LENGTH_SAMPLES_eq RING_BUFFER_SAMPLES_eq)
  from aligned_advance [OF this] p show ?thesis
    by (simp add: frameAligned_def writeFrame_fields BUFFER_LENGTH_SAMPLES_eq
        RING_BUFFER_SAMPLES_eq)
qed

section \<open>A single contributor\<close>

lemma sum_list_single:
  fixes f :: "nat \<Rightarrow> long"
  assumes "a < n" and "\<And>b. b < n \<Longrightarrow> b \<noteq> a \<Longrightarrow> f b = 0"
  shows "sum_list (map f [0..<n]) = f a"
proof -
  have "sum_list (map f [0..<n]) = sum f {0..<n}"
    by (simp add: interv_sum_list_conv_sum_set_nat)
  also have "\<dots> = sum (\<lambda>b. if b = a then f a else 0) {0..<n}"
    using assms(2) by (intro sum.cong) auto
  also have "\<dots> = f a"
    using assms(1) by (simp add: sum.delta)
  finally show ?thesis .
qed

lemma filter_slot:
  "filter (\<lambda>x. Q x \<and> x = a) [0..<n] = (if a < n \<and> Q a then [a] else [])"
  by (induction n) (auto simp: less_Suc_eq)

lemma packets_for_slot:
  "filter (\<lambda>p. dest p = a) (map (mixPacket s) (filter Q [0..<n]))
     = (if a < n \<and> Q a then [mixPacket s a] else [])"
proof -
  have "filter (\<lambda>p. dest p = a) (map (mixPacket s) (filter Q [0..<n]))
      = map (mixPacket s) (filter (\<lambda>x. Q x \<and> x = a) [0..<n])"
    by (simp add: filter_map comp_def mixPacket_def)
  then show ?thesis by (simp add: filter_slot)
qed

lemma previousFrame_played:
  "playable rb \<Longrightarrow> readable rb \<Longrightarrow> previousFrame (nextOutput (mixedBuffer rb)) = nextOutput rb"
  by (auto simp: mixedBuffer_def advanceOutput_def previousFrame_def readable_def Let_def
      BUFFER_LENGTH_SAMPLES_eq RING_BUFFER_SAMPLES_eq)

lemma shortSample_0: "shortSample 0 = 0"
  by (simp add: shortSample_def MAX_SAMPLE_VALUE_def word_sless_alt)

lemma cursorsInRange_exampleMixer:
  "n \<le> MAX_SOURCE_BUFFERS \<Longrightarrow> readable rb \<Longrightarrow> cursorsInRange (exampleMixer n rb)"
  by (simp add: cursorsInRange_def list_all_iff exampleMixer_def readable_def emptyBuffer_def
      BUFFER_LENGTH_SAMPLES_eq RING_BUFFER_SAMPLES_eq)

lemma sourceBuffers_exampleMixer_0: "sourceBuffers (exampleMixer n rb) 0 = rb"
  by (simp add: exampleMixer_def)

lemma not_playable_emptyBuffer: "\<not> playable emptyBuffer"
  by (simp add: playable_def emptyBuffer_def)

text \<open>
  C1. In a pass where the ring buffer of one recently seen agent is started and mixed and
  no other ring buffer is mixed, the master mix is that buffer's frame at the read cursor,
  sample for sample, and exactly one packet goes to that agent, all of whose samples are 0.
\<close>

theorem sole_contributor:
  assumes safe: "cursorsInRange s"
    and a: "a < numAgents s"
    and seen: "recentlySeen (agents s a) t"
    and st: "started (sourceBuffers s a)"
    and pl: "playable (sourceBuffers s a)"
    and others: "\<forall>b<MAX_SOURCE_BUFFERS. b \<noteq> a \<longrightarrow> \<not> playable (sourceBuffers s b)"
  shows "\<exists>s' out. sendBuffer_pass s t
       = Inr (s', map (\<lambda>k. scast (buffer (sourceBuffers s a) (nextOutput (sourceBuffers s a) + k)))
                    [0..<BUFFER_LENGTH_SAMPLES], out)
     \<and> map payload (filter (\<lambda>p. dest p = a) out) = [replicate BUFFER_LENGTH_SAMPLES 0]"
proof -
  have a20: "a < MAX_SOURCE_BUFFERS"
    using safe a by (simp add: cursorsInRange_def)
  have mix: "\<And>k. mixOf s k = frameAt (sourceBuffers s a) k"
  proof -
    fix k
    have "mixOf s k = contribution (sourceBuffers s a) k"
      unfolding mixOf_def using a20 others
      by (intro sum_list_single) (auto simp: contribution_def)
    then show "mixOf s k = frameAt (sourceBuffers s a) k"
      using pl by (simp add: contribution_def)
  qed
  have own: "\<And>k. clientSample s a k = 0"
    using pl previousFrame_played [OF pl cursorsInRange_readable [OF safe a20]]
    by (simp add: clientSample_def mix frameAt_def shortSample_0)
  from sendBuffer_pass_Inr [OF safe, of t] obtain s' where
    pass: "sendBuffer_pass s t
       = Inr (s', map (mixOf s) [0..<BUFFER_LENGTH_SAMPLES],
              map (mixPacket s) (filter (\<lambda>a. recentlySeen (agents s a) t) [0..<numAgents s]))"
    by blast
  have m: "map (mixOf s) [0..<BUFFER_LENGTH_SAMPLES]
      = map (\<lambda>k. scast (buffer (sourceBuffers s a) (nextOutput (sourceBuffers s a) + k)))
          [0..<BUFFER_LENGTH_SAMPLES]"
    by (simp add: mix frameAt_def)
  have z: "map (clientSample s a) [0..<BUFFER_LENGTH_SAMPLES] = replicate BUFFER_LENGTH_SAMPLES 0"
  proof -
    have "clientSample s a = (\<lambda>k. 0)" by (rule ext) (rule own)
    then show ?thesis by (simp add: map_replicate_const)
  qed
  have p: "map payload (filter (\<lambda>p. dest p = a)
        (map (mixPacket s) (filter (\<lambda>a. recentlySeen (agents s a) t) [0..<numAgents s])))
      = [replicate BUFFER_LENGTH_SAMPLES 0]"
    using a seen by (simp add: packets_for_slot mixPacket_def z)
  show ?thesis
    using pass m p by simp
qed

theorem sole_contributor_witness:
  "cursorsInRange (exampleMixer 1 (exampleBuffer 0 1024 True))
   \<and> playable (exampleBuffer 0 1024 True)
   \<and> (\<exists>s' out. sendBuffer_pass (exampleMixer 1 (exampleBuffer 0 1024 True)) (exampleTime 100)
         = Inr (s', map (\<lambda>k. scast (buffer (exampleBuffer 0 1024 True)
                                      (nextOutput (exampleBuffer 0 1024 True) + k)))
                      [0..<BUFFER_LENGTH_SAMPLES], out)
       \<and> map payload (filter (\<lambda>p. dest p = 0) out) = [replicate BUFFER_LENGTH_SAMPLES 0])"
proof -
  have rd: "readable (exampleBuffer 0 1024 True)"
    by (simp add: readable_def exampleBuffer_def BUFFER_LENGTH_SAMPLES_eq RING_BUFFER_SAMPLES_eq)
  have safe: "cursorsInRange (exampleMixer 1 (exampleBuffer 0 1024 True))"
    by (rule cursorsInRange_exampleMixer) (simp_all add: rd MAX_SOURCE_BUFFERS_def)
  have pl: "playable (exampleBuffer 0 1024 True)"
    by (simp add: playable_def exampleBuffer_def diffLastWriteNextOutput_def
        BUFFER_LENGTH_SAMPLES_eq RING_BUFFER_SAMPLES_eq)
  have seen: "recentlySeen (agents (exampleMixer 1 (exampleBuffer 0 1024 True)) 0) (exampleTime 100)"
    by (simp add: recentlySeen_def diffclock_def exampleMixer_def exampleAgent_def
        exampleTime_def LOGOFF_CHECK_INTERVAL_def)
  have others: "\<forall>b<MAX_SOURCE_BUFFERS. b \<noteq> 0 \<longrightarrow>
      \<not> playable (sourceBuffers (exampleMixer 1 (exampleBuffer 0 1024 True)) b)"
    by (simp add: exampleMixer_def not_playable_emptyBuffer)
  have st: "started (sourceBuffers (exampleMixer 1 (exampleBuffer 0 1024 True)) 0)"
    by (simp add: exampleMixer_def exampleBuffer_def)
  have n: "0 < numAgents (exampleMixer 1 (exampleBuffer 0 1024 True))"
    by (simp add: exampleMixer_def)
  from sole_contributor [OF safe n seen st _ others] pl safe
  show ?thesis by (simp add: sourceBuffers_exampleMixer_0)
qed

section \<open>Passes over the example mixer\<close>

lemma readable_exampleBuffer_0: "readable (exampleBuffer 0 w st)"
  by (simp add: readable_def exampleBuffer_def BUFFER_LENGTH_SAMPLES_eq RING_BUFFER_SAMPLES_eq)

lemma cursorsInRange_example_1: "cursorsInRange (exampleMixer 1 (exampleBuffer 0 w st))"
  by (rule cursorsInRange_exampleMixer) (simp_all add: readable_exampleBuffer_0 MAX_SOURCE_BUFFERS_def)

section \<open>Starting and starving\<close>

lemma started_mixedBuffer:
  "started (mixedBuffer rb) = (playable rb \<or> started rb \<and> endOfLastWrite rb = None)"
  by (auto simp: mixedBuffer_def advanceOutput_def Let_def)

lemma playable_buffering:
  "\<not> started rb \<Longrightarrow> endOfLastWrite rb \<noteq> None \<Longrightarrow>
     playable rb = (BUFFER_LENGTH_SAMPLES + JITTER_BUFFER_SAMPLES < diffLastWriteNextOutput rb)"
  by (auto simp: playable_def)

lemma mixedBuffer_starved:
  "started rb \<Longrightarrow> endOfLastWrite rb \<noteq> None \<Longrightarrow> diffLastWriteNextOutput rb < BUFFER_LENGTH_SAMPLES \<Longrightarrow>
     mixedBuffer rb = rb\<lparr>started := False\<rparr>"
  by (simp add: mixedBuffer_def playable_def)

lemma sum_list_without:
  fixes f :: "nat \<Rightarrow> long"
  shows "f b = 0 \<Longrightarrow> sum_list (map f xs) = sum_list (map f (filter (\<lambda>c. c \<noteq> b) xs))"
  by (induction xs) auto

section \<open>Agents not heard from\<close>

text \<open>
  C6, as the code has it. An agent last heard from more than \<open>LOGOFF_CHECK_INTERVAL\<close>
  milliseconds before the pass is sent no packet (line 116). The master mix of the pass
  is the sum of the contributions of all playable ring buffers: the loop over the source
  buffers (lines 90--113) does not look at the agents' times.
\<close>

theorem stale_agent_not_sent:
  assumes safe: "cursorsInRange s"
    and stale: "of_int LOGOFF_CHECK_INTERVAL < diffclock (time (agents s a)) t"
  shows "\<exists>s' out. sendBuffer_pass s t = Inr (s', map (mixOf s) [0..<BUFFER_LENGTH_SAMPLES], out)
     \<and> a \<notin> dest ` set out"
proof -
  from sendBuffer_pass_Inr [OF safe, of t] obtain s' where
    pass: "sendBuffer_pass s t
       = Inr (s', map (mixOf s) [0..<BUFFER_LENGTH_SAMPLES],
              map (mixPacket s) (filter (\<lambda>a. recentlySeen (agents s a) t) [0..<numAgents s]))"
    by blast
  have "a \<notin> dest ` set (map (mixPacket s)
      (filter (\<lambda>a. recentlySeen (agents s a) t) [0..<numAgents s]))"
    using stale by (auto simp: mixPacket_def recentlySeen_def)
  with pass show ?thesis by blast
qed

text \<open>The same agent is sent nothing.\<close>

theorem stale_agent_not_sent_witness:
  "\<exists>s' out. sendBuffer_pass (exampleMixer 1 (exampleBuffer 0 1536 False)) (exampleTime 105)
       = Inr (s', map (mixOf (exampleMixer 1 (exampleBuffer 0 1536 False)))
                    [0..<BUFFER_LENGTH_SAMPLES], out)
     \<and> 0 \<notin> dest ` set out"
proof -
  have stale: "of_int LOGOFF_CHECK_INTERVAL
     < diffclock (time (agents (exampleMixer 1 (exampleBuffer 0 1536 False)) 0)) (exampleTime 105)"
    by (simp add: diffclock_def exampleMixer_def exampleAgent_def exampleTime_def
        LOGOFF_CHECK_INTERVAL_def)
  from stale_agent_not_sent [OF cursorsInRange_example_1 stale]
  show ?thesis .
qed

section \<open>Admission\<close>

lemma prepareWrite_Some: "endOfLastWrite (prepareWrite rb) \<noteq> None"
  by (simp add: prepareWrite_def split: option.splits)

lemma addAgent_Inr:
  assumes "searchAgents s a p 0 = i" and "i < MAX_SOURCE_BUFFERS"
    and "endOfLastWrite (prepareWrite (sourceBuffers s i)) = Some w"
    and "w + BUFFER_LENGTH_SAMPLES \<le> RING_BUFFER_SAMPLES"
  shows "\<exists>s'. addAgent s a p audioData now
       = Inr (s', if i = numAgents s \<or> \<not> active (agents s i) then 1 else 0)
     \<and> numAgents s' = (if i = numAgents s then numAgents s + 1 else numAgents s)
     \<and> sourceBuffers s' = (sourceBuffers s)(i := writeFrame w audioData (prepareWrite (sourceBuffers s i)))
     \<and> agents s' = (agents s)(i :=
          (if i = numAgents s \<or> \<not> active (agents s i)
           then (agents s i)\<lparr>address := a, bufferTransmitted := False\<rparr>
           else agents s i)\<lparr>port := p, active := True, time := now\<rparr>)"
proof -
  have "\<not> MAX_AGENTS \<le> i" "\<not> MAX_SOURCE_BUFFERS \<le> i"
    using assms(2) MAX_SOURCE_BUFFERS_le by simp_all
  then show ?thesis
    using assms(1,3,4) by (simp add: addAgent_def Let_def)
qed

lemma searchAgents_bounds:
  "i \<le> numAgents s \<Longrightarrow> i \<le> searchAgents s a p i \<and> searchAgents s a p i \<le> numAgents s"
proof (induction s a p i rule: searchAgents.induct)
  case (1 s a p i)
  show ?case
  proof (cases "i < numAgents s")
    case True
    with "1.IH" show ?thesis
      by (subst (1 2) searchAgents.simps) auto
  next
    case False
    with "1.prems" show ?thesis
      by (subst (1 2) searchAgents.simps) simp
  qed
qed

lemma searchAgents_found:
  "searchAgents s a p i < numAgents s \<Longrightarrow>
     address (agents s (searchAgents s a p i)) = a \<and> port (agents s (searchAgents s a p i)) = p"
proof (induction s a p i rule: searchAgents.induct)
  case (1 s a p i)
  show ?case
  proof (cases "i < numAgents s \<and> \<not> (address (agents s i) = a \<and> port (agents s i) = p)")
    case True
    then have e: "searchAgents s a p i = searchAgents s a p (Suc i)"
      by (subst searchAgents.simps) auto
    from "1.IH" True "1.prems" show ?thesis
      unfolding e by simp
  next
    case False
    then have e: "searchAgents s a p i = i"
      by (subst searchAgents.simps) auto
    from "1.prems" False show ?thesis
      unfolding e by auto
  qed
qed

lemma searchAgents_first:
  "i \<le> j \<Longrightarrow> j < searchAgents s a p i \<Longrightarrow>
     \<not> (address (agents s j) = a \<and> port (agents s j) = p)"
proof (induction s a p i rule: searchAgents.induct)
  case (1 s a p i)
  show ?case
  proof (cases "i < numAgents s \<and> \<not> (address (agents s i) = a \<and> port (agents s i) = p)")
    case True
    then have e: "searchAgents s a p i = searchAgents s a p (Suc i)"
      by (subst searchAgents.simps) auto
    show ?thesis
    proof (cases "j = i")
      case True
      with \<open>i < numAgents s \<and> \<not> (address (agents s i) = a \<and> port (agents s i) = p)\<close>
      show ?thesis by simp
    next
      case False
      with "1.prems" have "Suc i \<le> j" by simp
      with "1.IH" True "1.prems" show ?thesis
        unfolding e by simp
    qed
  next
    case False
    then have e: "searchAgents s a p i = i"
      by (subst searchAgents.simps) auto
    from "1.prems" show ?thesis
      unfolding e by simp
  qed
qed

lemma searchAgents_unseen:
  "(searchAgents s a p 0 = numAgents s)
     = (\<forall>j<numAgents s. \<not> (address (agents s j) = a \<and> port (agents s j) = p))"
proof
  assume e: "searchAgents s a p 0 = numAgents s"
  show "\<forall>j<numAgents s. \<not> (address (agents s j) = a \<and> port (agents s j) = p)"
    using searchAgents_first [of 0 _ s a p] unfolding e by simp
next
  assume u: "\<forall>j<numAgents s. \<not> (address (agents s j) = a \<and> port (agents s j) = p)"
  show "searchAgents s a p 0 = numAgents s"
  proof (rule ccontr)
    assume "searchAgents s a p 0 \<noteq> numAgents s"
    with searchAgents_bounds [of 0 s a p] have l: "searchAgents s a p 0 < numAgents s"
      by simp
    from searchAgents_found [OF l] u l show False by blast
  qed
qed

lemma writable_Some:
  "writable rb \<Longrightarrow>
     \<exists>w. endOfLastWrite (prepareWrite rb) = Some w
       \<and> w + BUFFER_LENGTH_SAMPLES \<le> RING_BUFFER_SAMPLES"
  by (simp add: writable_def split: option.splits)

lemma refresh_active:
  "active ag \<Longrightarrow> ag\<lparr>port := p, active := True, time := now\<rparr> = ag\<lparr>port := p, time := now\<rparr>"
  by (cases ag) simp

lemma writeOffset_prepareWrite: "endOfLastWrite (prepareWrite rb) = Some (writeOffset rb)"
  by (simp add: prepareWrite_def writeOffset_def split: option.splits)


text \<open>
  C10. An admission from an identity whose slot is in the table and active reports
  \<open>is_new = 0\<close>, leaves \<open>numAgents\<close> as it is and changes only the port (to the value it
  has) and the time of that entry. \<open>numAgents\<close> grows by one or not at all, and it grows
  exactly when no slot below \<open>numAgents\<close> has the address and the port; then the entry is
  written at index \<open>numAgents\<close> and \<open>is_new = 1\<close>. In every case the frame is copied into
  the ring buffer of the slot at the write offset of lines 200--207: the samples from
  there on are the frame, every other sample of the storage is as before, the write cursor
  stands one frame after the offset, or at 0 when that is the end of the storage, and no
  other ring buffer changes. For frame-aligned cursors the write offset is the write
  cursor (0 for a buffer never written), and the read cursor and \<open>started\<close> are as before.
\<close>

theorem admission_population:
  assumes slot: "searchAgents s a p 0 = i" "i < MAX_SOURCE_BUFFERS"
    and wr: "writable (sourceBuffers s i)"
  shows "\<exists>s' is_new. addAgent s a p audioData now = Inr (s', is_new)
     \<and> (i < numAgents s \<and> active (agents s i) \<longrightarrow>
          is_new = 0 \<and> numAgents s' = numAgents s
          \<and> address (agents s i) = a \<and> port (agents s i) = p
          \<and> agents s' = (agents s)(i := (agents s i)\<lparr>port := p, time := now\<rparr>))
     \<and> (numAgents s' = numAgents s + 1 \<or> numAgents s' = numAgents s)
     \<and> (numAgents s' = numAgents s + 1
          \<longleftrightarrow> (\<forall>j<numAgents s. \<not> (address (agents s j) = a \<and> port (agents s j) = p)))
     \<and> (numAgents s' = numAgents s + 1 \<longrightarrow>
          i = numAgents s \<and> is_new = 1
          \<and> address (agents s' i) = a \<and> port (agents s' i) = p)
     \<and> (\<forall>k<BUFFER_LENGTH_SAMPLES.
          buffer (sourceBuffers s' i) (writeOffset (sourceBuffers s i) + k) = audioData k)
     \<and> (\<forall>k. k < writeOffset (sourceBuffers s i)
              \<or> writeOffset (sourceBuffers s i) + BUFFER_LENGTH_SAMPLES \<le> k \<longrightarrow>
          buffer (sourceBuffers s' i) k = buffer (sourceBuffers s i) k)
     \<and> endOfLastWrite (sourceBuffers s' i)
         = Some (if RING_BUFFER_SAMPLES \<le> writeOffset (sourceBuffers s i) + BUFFER_LENGTH_SAMPLES
                 then 0 else writeOffset (sourceBuffers s i) + BUFFER_LENGTH_SAMPLES)
     \<and> (\<forall>b. b \<noteq> i \<longrightarrow> sourceBuffers s' b = sourceBuffers s b)
     \<and> (frameAligned (sourceBuffers s i) \<longrightarrow>
          writeOffset (sourceBuffers s i)
            = (case endOfLastWrite (sourceBuffers s i) of None \<Rightarrow> 0 | Some w \<Rightarrow> w)
          \<and> nextOutput (sourceBuffers s' i) = nextOutput (sourceBuffers s i)
          \<and> started (sourceBuffers s' i) = started (sourceBuffers s i))"
proof -
  let ?rb = "sourceBuffers s i"
  let ?w = "writeOffset ?rb"
  have e: "endOfLastWrite (prepareWrite ?rb) = Some ?w"
    by (rule writeOffset_prepareWrite)
  from writable_Some [OF wr] e have w: "?w + BUFFER_LENGTH_SAMPLES \<le> RING_BUFFER_SAMPLES"
    by auto
  from addAgent_Inr [OF slot e w, of audioData now] obtain s' where
    add: "addAgent s a p audioData now
       = Inr (s', if i = numAgents s \<or> \<not> active (agents s i) then 1 else 0)"
    and n': "numAgents s' = (if i = numAgents s then numAgents s + 1 else numAgents s)"
    and sb': "sourceBuffers s' = (sourceBuffers s)(i := writeFrame ?w audioData (prepareWrite ?rb))"
    and ag': "agents s' = (agents s)(i :=
          (if i = numAgents s \<or> \<not> active (agents s i)
           then (agents s i)\<lparr>address := a, bufferTransmitted := False\<rparr>
           else agents s i)\<lparr>port := p, active := True, time := now\<rparr>)"
    by blast
  have unseen: "(i = numAgents s)
      = (\<forall>j<numAgents s. \<not> (address (agents s j) = a \<and> port (agents s j) = p))"
    using searchAgents_unseen [of s a p] slot(1) by simp
  have found: "i < numAgents s \<Longrightarrow> address (agents s i) = a \<and> port (agents s i) = p"
    using searchAgents_found [of s a p 0] slot(1) by simp
  have known: "i < numAgents s \<and> active (agents s i) \<longrightarrow>
          (if i = numAgents s \<or> \<not> active (agents s i) then 1 else 0) = (0 :: int)
          \<and> numAgents s' = numAgents s
          \<and> address (agents s i) = a \<and> port (agents s i) = p
          \<and> agents s' = (agents s)(i := (agents s i)\<lparr>port := p, time := now\<rparr>)"
    using found by (auto simp: n' ag' refresh_active)
  have grow: "numAgents s' = numAgents s + 1 \<or> numAgents s' = numAgents s"
    by (simp add: n')
  have grow_iff: "numAgents s' = numAgents s + 1
          \<longleftrightarrow> (\<forall>j<numAgents s. \<not> (address (agents s j) = a \<and> port (agents s j) = p))"
    using unseen by (simp add: n')
  have appended: "numAgents s' = numAgents s + 1 \<longrightarrow>
          i = numAgents s \<and> (if i = numAgents s \<or> \<not> active (agents s i) then 1 else 0) = (1 :: int)
          \<and> address (agents s' i) = a \<and> port (agents s' i) = p"
    by (auto simp: n' ag' split: if_splits)
  have bufold: "buffer (prepareWrite ?rb) = buffer ?rb"
    by (simp add: prepareWrite_def split: option.splits)
  have copied: "\<forall>k<BUFFER_LENGTH_SAMPLES. buffer (sourceBuffers s' i) (?w + k) = audioData k"
    by (simp add: sb' writeFrame_fields BUFFER_LENGTH_SAMPLES_eq)
  have kept: "\<forall>k. k < ?w \<or> ?w + BUFFER_LENGTH_SAMPLES \<le> k \<longrightarrow>
          buffer (sourceBuffers s' i) k = buffer ?rb k"
    by (auto simp: sb' writeFrame_fields bufold BUFFER_LENGTH_SAMPLES_eq)
  have cursor: "endOfLastWrite (sourceBuffers s' i)
         = Some (if RING_BUFFER_SAMPLES \<le> ?w + BUFFER_LENGTH_SAMPLES then 0
                 else ?w + BUFFER_LENGTH_SAMPLES)"
    by (simp add: sb' writeFrame_fields BUFFER_LENGTH_SAMPLES_eq RING_BUFFER_SAMPLES_eq)
  have others: "\<forall>b. b \<noteq> i \<longrightarrow> sourceBuffers s' b = sourceBuffers s b"
    by (simp add: sb')
  have aligned: "frameAligned ?rb \<longrightarrow>
          ?w = (case endOfLastWrite ?rb of None \<Rightarrow> 0 | Some w \<Rightarrow> w)
          \<and> nextOutput (sourceBuffers s' i) = nextOutput ?rb
          \<and> started (sourceBuffers s' i) = started ?rb"
  proof
    assume al: "frameAligned ?rb"
    from frameAligned_prepareWrite [OF al] e
    have "?w = (case endOfLastWrite ?rb of None \<Rightarrow> 0 | Some w \<Rightarrow> w)"
      by (simp split: option.splits)
    moreover from frameAligned_prepareWrite [OF al]
    have "nextOutput (sourceBuffers s' i) = nextOutput ?rb"
        "started (sourceBuffers s' i) = started ?rb"
      by (simp_all add: sb' writeFrame_fields split: option.splits)
    ultimately show "?w = (case endOfLastWrite ?rb of None \<Rightarrow> 0 | Some w \<Rightarrow> w)
          \<and> nextOutput (sourceBuffers s' i) = nextOutput ?rb
          \<and> started (sourceBuffers s' i) = started ?rb"
      by simp
  qed
  from add known grow grow_iff appended copied kept cursor others aligned show ?thesis
    by blast
qed

text \<open>
  C4, as the code has it. \<^verbatim>\<open>addAgent\<close> has no capacity test and no rejection: an
  admission whose slot is below \<open>MAX_SOURCE_BUFFERS\<close> succeeds, stores the frame in the
  ring buffer of the slot, grows \<open>numAgents\<close> by at most one and keeps it at most
  \<open>MAX_SOURCE_BUFFERS\<close>.
\<close>

theorem admission_below_capacity:
  assumes n: "numAgents s \<le> MAX_SOURCE_BUFFERS"
    and slot: "searchAgents s a p 0 = i" "i < MAX_SOURCE_BUFFERS"
    and wr: "writable (sourceBuffers s i)"
  shows "\<exists>s' is_new w. addAgent s a p audioData now = Inr (s', is_new)
     \<and> numAgents s \<le> numAgents s' \<and> numAgents s' \<le> numAgents s + 1
     \<and> numAgents s' \<le> MAX_SOURCE_BUFFERS
     \<and> (\<forall>k<BUFFER_LENGTH_SAMPLES. buffer (sourceBuffers s' i) (w + k) = audioData k)"
proof -
  from writable_Some [OF wr] obtain w where
    e: "endOfLastWrite (prepareWrite (sourceBuffers s i)) = Some w"
    and w: "w + BUFFER_LENGTH_SAMPLES \<le> RING_BUFFER_SAMPLES"
    by blast
  from addAgent_Inr [OF slot e w, of audioData now] obtain s' where
    add: "addAgent s a p audioData now
       = Inr (s', if i = numAgents s \<or> \<not> active (agents s i) then 1 else 0)"
    and n': "numAgents s' = (if i = numAgents s then numAgents s + 1 else numAgents s)"
    and sb': "sourceBuffers s' = (sourceBuffers s)(i := writeFrame w audioData (prepareWrite (sourceBuffers s i)))"
    by blast
  have "numAgents s \<le> numAgents s'" "numAgents s' \<le> numAgents s + 1"
      "numAgents s' \<le> MAX_SOURCE_BUFFERS"
    using n slot(2) by (simp_all add: n')
  moreover have "\<forall>k<BUFFER_LENGTH_SAMPLES. buffer (sourceBuffers s' i) (w + k) = audioData k"
    by (simp add: sb' writeFrame_fields BUFFER_LENGTH_SAMPLES_eq)
  ultimately show ?thesis using add by blast
qed

section \<open>Frame-aligned states\<close>

text \<open>
  The states the program reaches from a mixer that has received nothing have frame-aligned
  cursors: this is kept by every admission that finds a slot and by every pass. On them
  the start test agrees with the spec's \<open>backlog \<ge> F + jitterThreshold\<close>, and a starved
  buffer has its cursors together.
\<close>

lemma framesAligned_buffer:
  "framesAligned s \<Longrightarrow> b < MAX_SOURCE_BUFFERS \<Longrightarrow> frameAligned (sourceBuffers s b)"
  by (simp add: framesAligned_def list_all_iff)

lemma framesAligned_cursorsInRange: "framesAligned s \<Longrightarrow> cursorsInRange s"
  by (simp add: framesAligned_def cursorsInRange_def list_all_iff frameAligned_readable)

lemma framesAligned_pass:
  assumes al: "framesAligned s"
  shows "\<exists>s' mm out. sendBuffer_pass s t = Inr (s', mm, out) \<and> framesAligned s'"
proof -
  from sendBuffer_pass_Inr [OF framesAligned_cursorsInRange [OF al], of t] obtain s' where
    pass: "sendBuffer_pass s t
       = Inr (s', map (mixOf s) [0..<BUFFER_LENGTH_SAMPLES],
              map (mixPacket s) (filter (\<lambda>a. recentlySeen (agents s a) t) [0..<numAgents s]))"
    and sb: "\<forall>b<MAX_SOURCE_BUFFERS. sourceBuffers s' b = mixedBuffer (sourceBuffers s b)"
    and n: "numAgents s' = numAgents s"
    by blast
  have "framesAligned s'"
    using al sb n
    by (simp add: framesAligned_def list_all_iff frameAligned_mixedBuffer)
  with pass show ?thesis by blast
qed

lemma framesAligned_addAgent:
  assumes al: "framesAligned s" and slot: "searchAgents s a p 0 < MAX_SOURCE_BUFFERS"
  shows "\<exists>s' is_new. addAgent s a p audioData now = Inr (s', is_new) \<and> framesAligned s'"
proof -
  let ?i = "searchAgents s a p 0"
  have ali: "frameAligned (sourceBuffers s ?i)"
    using al slot by (rule framesAligned_buffer)
  from writable_Some [OF frameAligned_writable [OF ali]] obtain w where
    e: "endOfLastWrite (prepareWrite (sourceBuffers s ?i)) = Some w"
    and w: "w + BUFFER_LENGTH_SAMPLES \<le> RING_BUFFER_SAMPLES"
    by blast
  from addAgent_Inr [OF refl slot e w, of audioData now] obtain s' where
    add: "addAgent s a p audioData now
       = Inr (s', if ?i = numAgents s \<or> \<not> active (agents s ?i) then 1 else 0)"
    and n': "numAgents s' = (if ?i = numAgents s then numAgents s + 1 else numAgents s)"
    and sb': "sourceBuffers s'
       = (sourceBuffers s)(?i := writeFrame w audioData (prepareWrite (sourceBuffers s ?i)))"
    by blast
  have "numAgents s' \<le> MAX_SOURCE_BUFFERS"
    using al slot by (simp add: n' framesAligned_def)
  moreover have "list_all (\<lambda>b. frameAligned (sourceBuffers s' b)) [0..<MAX_SOURCE_BUFFERS]"
    using al frameAligned_admitted [OF ali e, of audioData]
    by (simp add: sb' framesAligned_def list_all_iff)
  ultimately have "framesAligned s'"
    by (simp add: framesAligned_def)
  with add show ?thesis by blast
qed

lemma framesAligned_starts_iff:
  assumes al: "framesAligned s"
    and b: "b < MAX_SOURCE_BUFFERS"
    and buffering: "\<not> started (sourceBuffers s b)"
    and written: "endOfLastWrite (sourceBuffers s b) \<noteq> None"
  shows "\<exists>s' mm out. sendBuffer_pass s t = Inr (s', mm, out)
     \<and> (started (sourceBuffers s' b)
          \<longleftrightarrow> BUFFER_LENGTH_SAMPLES + JITTER_BUFFER_SAMPLES
                \<le> diffLastWriteNextOutput (sourceBuffers s b))"
proof -
  from sendBuffer_pass_Inr [OF framesAligned_cursorsInRange [OF al], of t] obtain s' where
    pass: "sendBuffer_pass s t
       = Inr (s', map (mixOf s) [0..<BUFFER_LENGTH_SAMPLES],
              map (mixPacket s) (filter (\<lambda>a. recentlySeen (agents s a) t) [0..<numAgents s]))"
    and sb: "\<forall>b<MAX_SOURCE_BUFFERS. sourceBuffers s' b = mixedBuffer (sourceBuffers s b)"
    by blast
  have "started (sourceBuffers s' b)
      = (BUFFER_LENGTH_SAMPLES + JITTER_BUFFER_SAMPLES \<le> diffLastWriteNextOutput (sourceBuffers s b))"
    using sb b buffering written frameAligned_boundary [OF framesAligned_buffer [OF al b]]
    by (simp add: started_mixedBuffer playable_buffering)
  with pass show ?thesis by blast
qed

section \<open>Runs from the fresh mixer\<close>

lemma framesAligned_freshMixer: "framesAligned freshMixer"
  by (simp add: framesAligned_def list_all_iff freshMixer_def frameAligned_def emptyBuffer_def
      RING_BUFFER_SAMPLES_eq)

lemma admissions_distinct:
  "n \<le> MAX_SOURCE_BUFFERS \<Longrightarrow>
     \<exists>s. admissions (\<lambda>j. 5000 + j) n = Inr s \<and> numAgents s = n \<and> framesAligned s
       \<and> (\<forall>j<n. port (agents s j) = 5000 + j)"
proof (induction n)
  case 0
  then show ?case by (simp add: framesAligned_freshMixer) (simp add: freshMixer_def)
next
  case (Suc n)
  then obtain s where
    s: "admissions (\<lambda>j. 5000 + j) n = Inr s" and ns: "numAgents s = n" and al: "framesAligned s"
    and ports: "\<forall>j<n. port (agents s j) = 5000 + j"
    by auto
  have slot: "searchAgents s ''10.0.0.1'' (5000 + n) 0 = n"
    using searchAgents_unseen [of s "''10.0.0.1''" "5000 + n"] ports by (simp add: ns)
  have n20: "n < MAX_SOURCE_BUFFERS" using Suc.prems by simp
  from writable_Some [OF frameAligned_writable [OF framesAligned_buffer [OF al n20]]]
  obtain w where
    e: "endOfLastWrite (prepareWrite (sourceBuffers s n)) = Some w"
    and w: "w + BUFFER_LENGTH_SAMPLES \<le> RING_BUFFER_SAMPLES"
    by blast
  from addAgent_Inr [OF slot n20 e w, of "\<lambda>k. 100" "exampleTime 100"] obtain s' where
    add: "addAgent s ''10.0.0.1'' (5000 + n) (\<lambda>k. 100) (exampleTime 100)
       = Inr (s', if n = numAgents s \<or> \<not> active (agents s n) then 1 else 0)"
    and n': "numAgents s' = (if n = numAgents s then numAgents s + 1 else numAgents s)"
    and ag': "agents s' = (agents s)(n :=
          (if n = numAgents s \<or> \<not> active (agents s n)
           then (agents s n)\<lparr>address := ''10.0.0.1'', bufferTransmitted := False\<rparr>
           else agents s n)\<lparr>port := 5000 + n, active := True, time := exampleTime 100\<rparr>)"
    by blast
  from framesAligned_addAgent [OF al, of "''10.0.0.1''" "5000 + n" "\<lambda>k. 100" "exampleTime 100"]
  have al': "framesAligned s'"
    using slot n20 add by auto
  have "admissions (\<lambda>j. 5000 + j) (Suc n) = Inr s'"
    by (simp add: s add)
  moreover have "numAgents s' = Suc n"
    by (simp add: n' ns)
  moreover have "\<forall>j<Suc n. port (agents s' j) = 5000 + j"
    using ports by (simp add: ag' less_Suc_eq)
  ultimately show ?case using al' by blast
qed

text \<open>The twentieth sender is admitted.\<close>

theorem admission_below_capacity_witness:
  "\<exists>s s' is_new w. admissions (\<lambda>j. 5000 + j) 19 = Inr s
     \<and> addAgent s ''10.0.0.1'' 5019 (\<lambda>k. 100) (exampleTime 100) = Inr (s', is_new)
     \<and> numAgents s' \<le> MAX_SOURCE_BUFFERS
     \<and> (\<forall>k<BUFFER_LENGTH_SAMPLES. buffer (sourceBuffers s' 19) (w + k) = 100)"
proof -
  from admissions_distinct [of 19] obtain s where
    s: "admissions (\<lambda>j. 5000 + j) 19 = Inr s" and ns: "numAgents s = 19"
    and al: "framesAligned s" and ports: "\<forall>j<19. port (agents s j) = 5000 + j"
    by (auto simp: MAX_SOURCE_BUFFERS_def)
  have slot: "searchAgents s ''10.0.0.1'' 5019 0 = 19"
    using searchAgents_unseen [of s "''10.0.0.1''" 5019] ports by (simp add: ns)
  have b: "19 < MAX_SOURCE_BUFFERS" by (simp add: MAX_SOURCE_BUFFERS_def)
  have n: "numAgents s \<le> MAX_SOURCE_BUFFERS" by (simp add: ns MAX_SOURCE_BUFFERS_def)
  have wr: "writable (sourceBuffers s 19)"
    by (rule frameAligned_writable [OF framesAligned_buffer [OF al b]])
  from admission_below_capacity [OF n slot b wr, of "\<lambda>k. 100" "exampleTime 100"] s
  show ?thesis by blast
qed

text \<open>
  C4 as the spec states it fails: frames arrive from 21 senders, one after the other. The
  first 20 are admitted and \<open>numAgents\<close> is \<open>MAX_SOURCE_BUFFERS\<close>; the frame of the 21st
  is not rejected: \<^verbatim>\<open>addAgent\<close> goes on to \<^verbatim>\<open>sourceBuffers[20]\<close>, outside the array.
\<close>

theorem twenty_first_agent_faults:
  "(\<exists>s. admissions (\<lambda>j. 5000 + j) 20 = Inr s \<and> numAgents s = MAX_SOURCE_BUFFERS)
   \<and> admissions (\<lambda>j. 5000 + j) (Suc 20) = Inl (SourceBufferIndex 20)"
proof -
  from admissions_distinct [of 20] obtain s where
    s: "admissions (\<lambda>j. 5000 + j) 20 = Inr s" and ns: "numAgents s = 20"
    and ports: "\<forall>j<20. port (agents s j) = 5000 + j"
    by (auto simp: MAX_SOURCE_BUFFERS_def)
  have slot: "searchAgents s ''10.0.0.1'' 5020 0 = 20"
    using searchAgents_unseen [of s "''10.0.0.1''" 5020] ports by (simp add: ns)
  have "addAgent s ''10.0.0.1'' 5020 (\<lambda>k. 100) (exampleTime 100) = Inl (SourceBufferIndex 20)"
    by (simp add: addAgent_def slot Let_def MAX_SOURCE_BUFFERS_def MAX_AGENTS_def)
  then have "admissions (\<lambda>j. 5000 + j) (Suc 20) = Inl (SourceBufferIndex 20)"
    unfolding admissions.simps(2) s by simp
  with s ns show ?thesis
    by (simp only: MAX_SOURCE_BUFFERS_def) blast
qed

lemma first_frame:
  "\<exists>s'. addAgent freshMixer ''10.0.0.1'' 5000 (\<lambda>k. 100) (exampleTime 100) = Inr (s', 1)
     \<and> heldFrames 1 s'"
proof -
  have slot: "searchAgents freshMixer ''10.0.0.1'' 5000 0 = 0"
    by (subst searchAgents.simps) (simp add: freshMixer_def)
  have e: "endOfLastWrite (prepareWrite (sourceBuffers freshMixer 0)) = Some 0"
    by (simp add: freshMixer_def emptyBuffer_def prepareWrite_def)
  from addAgent_Inr [OF slot _ e, of "\<lambda>k. 100" "exampleTime 100"]
  show ?thesis
    by (auto simp: heldFrames_def MAX_SOURCE_BUFFERS_def BUFFER_LENGTH_SAMPLES_eq
        RING_BUFFER_SAMPLES_eq freshMixer_def emptyBuffer_def prepareWrite_def writeFrame_fields
        exampleAgent_def unusedAgent_def)
qed

lemma next_frame:
  assumes h: "heldFrames n s" and n: "0 < n" "n < 9"
  shows "\<exists>s'. addAgent s ''10.0.0.1'' 5000 (\<lambda>k. 100) (exampleTime 100) = Inr (s', 0)
     \<and> heldFrames (Suc n) s'"
proof -
  let ?rb = "sourceBuffers s 0"
  from h have ns: "numAgents s = 1" and ag: "agents s 0 = exampleAgent 0"
    and r: "nextOutput ?rb = 0" and w: "endOfLastWrite ?rb = Some (512 * n)"
    and st: "\<not> started ?rb" and held: "\<forall>k<512 * n. buffer ?rb k = 100"
    and rest: "\<forall>b. b \<noteq> 0 \<longrightarrow> sourceBuffers s b = emptyBuffer"
    by (simp_all add: heldFrames_def BUFFER_LENGTH_SAMPLES_eq)
  have slot: "searchAgents s ''10.0.0.1'' 5000 0 = 0"
    by (subst searchAgents.simps) (simp add: ns ag exampleAgent_def)
  have wl: "512 * n < (5120 :: nat)" using n by simp
  have d: "diffLastWriteNextOutput ?rb = 512 * n"
    unfolding diff_Some [OF w] r using backlog_cases [OF wl, of 0] by simp
  have p: "prepareWrite ?rb = ?rb"
    using n by (simp add: prepareWrite_def w d BUFFER_LENGTH_SAMPLES_eq RING_BUFFER_SAMPLES_eq)
  have e: "endOfLastWrite (prepareWrite ?rb) = Some (512 * n)"
    by (simp add: p w)
  have room: "512 * n + BUFFER_LENGTH_SAMPLES \<le> RING_BUFFER_SAMPLES"
    using n by (simp add: BUFFER_LENGTH_SAMPLES_eq RING_BUFFER_SAMPLES_eq)
  from addAgent_Inr [OF slot _ e room, of "\<lambda>k. 100" "exampleTime 100"] obtain s' where
    add: "addAgent s ''10.0.0.1'' 5000 (\<lambda>k. 100) (exampleTime 100)
       = Inr (s', if 0 = numAgents s \<or> \<not> active (agents s 0) then 1 else 0)"
    and n': "numAgents s' = (if 0 = numAgents s then numAgents s + 1 else numAgents s)"
    and sb': "sourceBuffers s' = (sourceBuffers s)(0 := writeFrame (512 * n) (\<lambda>k. 100) (prepareWrite ?rb))"
    and ag': "agents s' = (agents s)(0 :=
          (if 0 = numAgents s \<or> \<not> active (agents s 0)
           then (agents s 0)\<lparr>address := ''10.0.0.1'', bufferTransmitted := False\<rparr>
           else agents s 0)\<lparr>port := 5000, active := True, time := exampleTime 100\<rparr>)"
    by (auto simp: MAX_SOURCE_BUFFERS_def)
  have "addAgent s ''10.0.0.1'' 5000 (\<lambda>k. 100) (exampleTime 100) = Inr (s', 0)"
    using add by (simp add: ns ag exampleAgent_def)
  moreover have "heldFrames (Suc n) s'"
    using n r st held rest
    by (auto simp: heldFrames_def n' ns ag' ag exampleAgent_def sb' p writeFrame_fields
        BUFFER_LENGTH_SAMPLES_eq)
  ultimately show ?thesis by blast
qed

lemma admissions_same:
  "0 < n \<Longrightarrow> n \<le> 9 \<Longrightarrow> \<exists>s. admissions (\<lambda>j. 5000) n = Inr s \<and> heldFrames n s"
proof (induction n)
  case 0
  then show ?case by simp
next
  case (Suc n)
  show ?case
  proof (cases "n = 0")
    case True
    with first_frame show ?thesis by auto
  next
    case False
    with Suc obtain s where s: "admissions (\<lambda>j. 5000) n = Inr s" and h: "heldFrames n s"
      by auto
    from next_frame [OF h] False Suc.prems obtain s' where
      "addAgent s ''10.0.0.1'' 5000 (\<lambda>k. 100) (exampleTime 100) = Inr (s', 0)"
      "heldFrames (Suc n) s'"
      by auto
    then show ?thesis by (simp add: s)
  qed
qed

lemma heldFrames_pass:
  assumes h: "heldFrames n s" and n: "2 \<le> n" "n \<le> 9"
    and late: "\<not> recentlySeen (exampleAgent 0) t"
  shows "\<exists>s'. sendBuffer_pass s t = Inr (s', replicate BUFFER_LENGTH_SAMPLES 100, [])"
proof -
  let ?rb = "sourceBuffers s 0"
  from h have ns: "numAgents s = 1" and ag: "agents s 0 = exampleAgent 0"
    and r: "nextOutput ?rb = 0" and w: "endOfLastWrite ?rb = Some (512 * n)"
    and st: "\<not> started ?rb" and held: "\<forall>k<512 * n. buffer ?rb k = 100"
    and rest: "\<forall>b. b \<noteq> 0 \<longrightarrow> sourceBuffers s b = emptyBuffer"
    by (simp_all add: heldFrames_def BUFFER_LENGTH_SAMPLES_eq)
  have wl: "512 * n < (5120 :: nat)" using n by simp
  have d: "diffLastWriteNextOutput ?rb = 512 * n"
    unfolding diff_Some [OF w] r using backlog_cases [OF wl, of 0] by simp
  have pl: "playable ?rb"
    using n by (simp add: playable_def w d BUFFER_LENGTH_SAMPLES_eq JITTER_BUFFER_SAMPLES_def)
  have safe: "cursorsInRange s"
    unfolding cursorsInRange_def list_all_iff
  proof (intro conjI ballI)
    show "numAgents s \<le> MAX_SOURCE_BUFFERS" by (simp add: ns MAX_SOURCE_BUFFERS_def)
  next
    fix b show "readable (sourceBuffers s b)"
      using r rest by (cases "b = 0")
        (simp_all add: readable_def emptyBuffer_def BUFFER_LENGTH_SAMPLES_eq RING_BUFFER_SAMPLES_eq)
  qed
  have mix: "\<And>k. k < BUFFER_LENGTH_SAMPLES \<Longrightarrow> mixOf s k = 100"
  proof -
    fix k assume k: "k < BUFFER_LENGTH_SAMPLES"
    have "mixOf s k = contribution ?rb k"
      unfolding mixOf_def using rest
      by (intro sum_list_single)
        (simp_all add: MAX_SOURCE_BUFFERS_def contribution_def not_playable_emptyBuffer)
    also have "\<dots> = 100"
      using k n held by (simp add: contribution_def pl frameAt_def r BUFFER_LENGTH_SAMPLES_eq)
    finally show "mixOf s k = 100" .
  qed
  have m: "map (mixOf s) [0..<BUFFER_LENGTH_SAMPLES] = replicate BUFFER_LENGTH_SAMPLES 100"
  proof -
    have "map (mixOf s) [0..<BUFFER_LENGTH_SAMPLES] = map (\<lambda>k. 100) [0..<BUFFER_LENGTH_SAMPLES]"
      by (rule map_cong) (simp_all add: mix)
    then show ?thesis by (simp add: map_replicate_const)
  qed
  from sendBuffer_pass_Inr [OF safe, of t] late show ?thesis
    by (auto simp: m ns ag)
qed

text \<open>
  C6 as the spec states it fails: three frames of the sample 100 arrive from one agent at
  second 100, and the next pass runs at second 105, 5000 milliseconds later. The ring
  buffer holds 1536 samples and has not started, so the pass mixes it: the master mix is
  100 at every sample, although the agent is past the liveness window. Nothing is sent.
\<close>

theorem silent_agent_still_mixed:
  "\<exists>s s'. admissions (\<lambda>j. 5000) 3 = Inr s
     \<and> of_int LOGOFF_CHECK_INTERVAL < diffclock (time (agents s 0)) (exampleTime 105)
     \<and> sendBuffer_pass s (exampleTime 105) = Inr (s', replicate BUFFER_LENGTH_SAMPLES 100, [])"
proof -
  from admissions_same [of 3] obtain s where
    s: "admissions (\<lambda>j. 5000) 3 = Inr s" and h: "heldFrames 3 s"
    by auto
  have late: "of_int LOGOFF_CHECK_INTERVAL < diffclock (time (exampleAgent 0)) (exampleTime 105)"
    by (simp add: diffclock_def exampleAgent_def exampleTime_def LOGOFF_CHECK_INTERVAL_def)
  then have "\<not> recentlySeen (exampleAgent 0) (exampleTime 105)"
    by (simp add: recentlySeen_def)
  from heldFrames_pass [OF h _ _ this] obtain s' where
    "sendBuffer_pass s (exampleTime 105) = Inr (s', replicate BUFFER_LENGTH_SAMPLES 100, [])"
    by auto
  moreover from h have "agents s 0 = exampleAgent 0" by (simp add: heldFrames_def)
  ultimately show ?thesis using s late by auto
qed

section \<open>Reachable states\<close>

text \<open>
  Every state the program reaches has frame-aligned cursors, and a ring buffer that has
  received nothing is as \<^verbatim>\<open>main\<close> built it.
\<close>

lemma addAgent_slot:
  "addAgent s a p audioData now = Inr (s', is_new) \<Longrightarrow> searchAgents s a p 0 < MAX_SOURCE_BUFFERS"
  by (auto simp: addAgent_def Let_def split: if_splits option.splits)

lemma endOfLastWrite_mixedBuffer: "endOfLastWrite (mixedBuffer rb) = endOfLastWrite rb"
  by (simp add: mixedBuffer_def advanceOutput_fields)

lemma mixedBuffer_emptyBuffer: "mixedBuffer emptyBuffer = emptyBuffer"
  by (simp add: mixedBuffer_def not_playable_emptyBuffer) (simp add: emptyBuffer_def)

lemma nextOutput_mixedBuffer:
  "nextOutput (mixedBuffer rb)
     = (if playable rb then (if 5120 \<le> nextOutput rb + 512 then 0 else nextOutput rb + 512)
        else nextOutput rb)"
  by (simp add: mixedBuffer_def advanceOutput_fields)

lemma reach_invariant:
  "reach s \<Longrightarrow>
     framesAligned s \<and> (\<forall>b. endOfLastWrite (sourceBuffers s b) = None \<longrightarrow> sourceBuffers s b = emptyBuffer)"
proof (induction rule: reach.induct)
  case reach_fresh
  show ?case by (simp add: framesAligned_freshMixer) (simp add: freshMixer_def)
next
  case (reach_frame s a p audioData now s' is_new)
  then have al: "framesAligned s"
    and uw: "\<forall>b. endOfLastWrite (sourceBuffers s b) = None \<longrightarrow> sourceBuffers s b = emptyBuffer"
    by simp_all
  let ?i = "searchAgents s a p 0"
  have slot: "?i < MAX_SOURCE_BUFFERS"
    using reach_frame.hyps(2) by (rule addAgent_slot)
  from writable_Some [OF frameAligned_writable [OF framesAligned_buffer [OF al slot]]] obtain w where
    e: "endOfLastWrite (prepareWrite (sourceBuffers s ?i)) = Some w"
    and w: "w + BUFFER_LENGTH_SAMPLES \<le> RING_BUFFER_SAMPLES"
    by blast
  from addAgent_Inr [OF refl slot e w, of audioData now] reach_frame.hyps(2)
  have sb': "sourceBuffers s'
       = (sourceBuffers s)(?i := writeFrame w audioData (prepareWrite (sourceBuffers s ?i)))"
    by auto
  from framesAligned_addAgent [OF al slot, of audioData now] reach_frame.hyps(2)
  have "framesAligned s'" by auto
  moreover have "\<forall>b. endOfLastWrite (sourceBuffers s' b) = None \<longrightarrow> sourceBuffers s' b = emptyBuffer"
    using uw by (simp add: sb' writeFrame_fields)
  ultimately show ?case by simp
next
  case (reach_pass s t s' mm out)
  then have al: "framesAligned s"
    and uw: "\<forall>b. endOfLastWrite (sourceBuffers s b) = None \<longrightarrow> sourceBuffers s b = emptyBuffer"
    by simp_all
  from sendBuffer_pass_Inr [OF framesAligned_cursorsInRange [OF al], of t] reach_pass.hyps(2)
  have sb: "\<forall>b<MAX_SOURCE_BUFFERS. sourceBuffers s' b = mixedBuffer (sourceBuffers s b)"
    and rest: "\<forall>b. MAX_SOURCE_BUFFERS \<le> b \<longrightarrow> sourceBuffers s' b = sourceBuffers s b"
    by auto
  from framesAligned_pass [OF al, of t] reach_pass.hyps(2)
  have "framesAligned s'" by auto
  moreover have "\<forall>b. endOfLastWrite (sourceBuffers s' b) = None \<longrightarrow> sourceBuffers s' b = emptyBuffer"
  proof (intro allI impI)
    fix b assume n: "endOfLastWrite (sourceBuffers s' b) = None"
    show "sourceBuffers s' b = emptyBuffer"
    proof (cases "b < MAX_SOURCE_BUFFERS")
      case True
      with sb have e: "sourceBuffers s' b = mixedBuffer (sourceBuffers s b)" by simp
      with n have "endOfLastWrite (sourceBuffers s b) = None"
        by (simp add: endOfLastWrite_mixedBuffer)
      with uw have "sourceBuffers s b = emptyBuffer" by simp
      then show ?thesis by (simp add: e mixedBuffer_emptyBuffer)
    next
      case False
      with rest have "sourceBuffers s' b = sourceBuffers s b" by simp
      with n uw show ?thesis by simp
    qed
  qed
  ultimately show ?case by simp
qed

lemma reach_framesAligned: "reach s \<Longrightarrow> framesAligned s"
  by (simp add: reach_invariant)

lemma reach_unwritten:
  "reach s \<Longrightarrow> endOfLastWrite (sourceBuffers s b) = None \<Longrightarrow> sourceBuffers s b = emptyBuffer"
  by (simp add: reach_invariant)

lemma reach_admissions: "admissions ports n = Inr s \<Longrightarrow> reach s"
proof (induction n arbitrary: s)
  case 0
  then show ?case by (simp add: reach_fresh)
next
  case (Suc n)
  from Suc.prems obtain s0 is_new where
    s0: "admissions ports n = Inr s0"
    and step: "addAgent s0 ''10.0.0.1'' (ports n) (\<lambda>k. 100) (exampleTime 100) = Inr (s, is_new)"
    by (auto split: sum.splits)
  from Suc.IH [OF s0] step show ?case by (rule reach_frame)
qed

lemma heldFrames_fields:
  assumes "heldFrames n s" and "n \<le> 9"
  shows "nextOutput (sourceBuffers s 0) = 0"
    and "endOfLastWrite (sourceBuffers s 0) = Some (512 * n)"
    and "\<not> started (sourceBuffers s 0)"
    and "diffLastWriteNextOutput (sourceBuffers s 0) = 512 * n"
    and "searchAgents s ''10.0.0.1'' 5000 0 = 0"
proof -
  from assms(1) show r: "nextOutput (sourceBuffers s 0) = 0"
    and w: "endOfLastWrite (sourceBuffers s 0) = Some (512 * n)"
    and "\<not> started (sourceBuffers s 0)"
    by (simp_all add: heldFrames_def BUFFER_LENGTH_SAMPLES_eq)
  have wl: "512 * n < (5120 :: nat)" using assms(2) by simp
  show "diffLastWriteNextOutput (sourceBuffers s 0) = 512 * n"
    unfolding diff_Some [OF w] r using backlog_cases [OF wl, of 0] by simp
  from assms(1) have "numAgents s = 1" "agents s 0 = exampleAgent 0"
    by (simp_all add: heldFrames_def)
  then show "searchAgents s ''10.0.0.1'' 5000 0 = 0"
    by (subst searchAgents.simps) (simp add: exampleAgent_def)
qed

section \<open>Starting and starving, in the states the program reaches\<close>

text \<open>
  C2. In every state the program reaches, a pass starts a ring buffer that has not started
  exactly when its backlog is at least a frame plus the jitter allowance. Line 93 holds a
  buffer back when the backlog is at most \<open>BUFFER_LENGTH_SAMPLES + JITTER_BUFFER_SAMPLES\<close> =
  953; the cursors are multiples of the frame length, so the backlog is never 953 and the
  test agrees with the spec's \<open>backlog \<ge> F + jitterThreshold\<close>. A buffer that has received
  nothing has backlog 0 and is not started.
\<close>

theorem buffering_starts_iff:
  assumes r: "reach s"
    and b: "b < MAX_SOURCE_BUFFERS"
    and buffering: "\<not> started (sourceBuffers s b)"
  shows "\<exists>s' mm out. sendBuffer_pass s t = Inr (s', mm, out)
     \<and> (started (sourceBuffers s' b)
          \<longleftrightarrow> BUFFER_LENGTH_SAMPLES + JITTER_BUFFER_SAMPLES
                \<le> diffLastWriteNextOutput (sourceBuffers s b))"
proof (cases "endOfLastWrite (sourceBuffers s b)")
  case None
  from sendBuffer_pass_Inr [OF framesAligned_cursorsInRange [OF reach_framesAligned [OF r]], of t]
  obtain s' where
    pass: "sendBuffer_pass s t
       = Inr (s', map (mixOf s) [0..<BUFFER_LENGTH_SAMPLES],
              map (mixPacket s) (filter (\<lambda>a. recentlySeen (agents s a) t) [0..<numAgents s]))"
    and sb: "\<forall>b<MAX_SOURCE_BUFFERS. sourceBuffers s' b = mixedBuffer (sourceBuffers s b)"
    by blast
  have "\<not> started (sourceBuffers s' b)"
    using sb b buffering None by (simp add: started_mixedBuffer playable_def)
  moreover have "diffLastWriteNextOutput (sourceBuffers s b) = 0"
    using None by (simp add: diffLastWriteNextOutput_def)
  ultimately show ?thesis
    using pass by (simp add: BUFFER_LENGTH_SAMPLES_eq)
next
  case (Some w)
  then have "endOfLastWrite (sourceBuffers s b) \<noteq> None" by simp
  with reach_framesAligned [OF r] b buffering show ?thesis
    by (rule framesAligned_starts_iff)
qed

text \<open>Two frames from one agent (backlog 1024) start its buffer; one frame (backlog 512)
  does not.\<close>

theorem buffering_starts_iff_witness:
  "(\<exists>s s' mm out. admissions (\<lambda>j. 5000) 2 = Inr s
      \<and> \<not> started (sourceBuffers s 0)
      \<and> diffLastWriteNextOutput (sourceBuffers s 0) = 1024
      \<and> sendBuffer_pass s (exampleTime 100) = Inr (s', mm, out)
      \<and> started (sourceBuffers s' 0))
   \<and> (\<exists>s s' mm out. admissions (\<lambda>j. 5000) 1 = Inr s
      \<and> \<not> started (sourceBuffers s 0)
      \<and> diffLastWriteNextOutput (sourceBuffers s 0) = 512
      \<and> sendBuffer_pass s (exampleTime 100) = Inr (s', mm, out)
      \<and> \<not> started (sourceBuffers s' 0))"
proof -
  have b: "0 < MAX_SOURCE_BUFFERS" by (simp add: MAX_SOURCE_BUFFERS_def)
  from admissions_same [of 2] obtain s2 where
    s2: "admissions (\<lambda>j. 5000) 2 = Inr s2" and h2: "heldFrames 2 s2"
    by auto
  note f2 = heldFrames_fields [OF h2, simplified]
  from buffering_starts_iff [OF reach_admissions [OF s2] b, of "exampleTime 100"] f2(3,4)
  obtain s2' mm2 out2 where
    "sendBuffer_pass s2 (exampleTime 100) = Inr (s2', mm2, out2)" "started (sourceBuffers s2' 0)"
    by (auto simp: BUFFER_LENGTH_SAMPLES_eq JITTER_BUFFER_SAMPLES_def)
  with s2 f2(3,4) have two: "\<exists>s s' mm out. admissions (\<lambda>j. 5000) 2 = Inr s
      \<and> \<not> started (sourceBuffers s 0)
      \<and> diffLastWriteNextOutput (sourceBuffers s 0) = 1024
      \<and> sendBuffer_pass s (exampleTime 100) = Inr (s', mm, out)
      \<and> started (sourceBuffers s' 0)"
    by auto
  from admissions_same [of 1] obtain s1 where
    s1: "admissions (\<lambda>j. 5000) 1 = Inr s1" and h1: "heldFrames 1 s1"
    by auto
  note f1 = heldFrames_fields [OF h1, simplified]
  from buffering_starts_iff [OF reach_admissions [OF s1] b, of "exampleTime 100"] f1(3,4)
  obtain s1' mm1 out1 where
    "sendBuffer_pass s1 (exampleTime 100) = Inr (s1', mm1, out1)" "\<not> started (sourceBuffers s1' 0)"
    by (auto simp: BUFFER_LENGTH_SAMPLES_eq JITTER_BUFFER_SAMPLES_def)
  with s1 f1(3,4) have one: "\<exists>s s' mm out. admissions (\<lambda>j. 5000) 1 = Inr s
      \<and> \<not> started (sourceBuffers s 0)
      \<and> diffLastWriteNextOutput (sourceBuffers s 0) = 512
      \<and> sendBuffer_pass s (exampleTime 100) = Inr (s', mm, out)
      \<and> \<not> started (sourceBuffers s' 0)"
    by auto
  from two one show ?thesis by (rule conjI)
qed

text \<open>
  C3. In every state the program reaches, a pass stops a started ring buffer whose backlog
  is less than a frame: afterwards \<open>started\<close> is false, the read cursor stands at the write
  cursor and the backlog is 0, and the master mix of the pass is the sum of the
  contributions of the other buffers. Line 97, the whole branch, clears \<open>started\<close> and
  nothing else: with frame-aligned cursors a backlog below a frame is no backlog, and the
  cursors stand together already.
\<close>

theorem starved_stops:
  assumes r: "reach s"
    and b: "b < MAX_SOURCE_BUFFERS"
    and st: "started (sourceBuffers s b)"
    and starved: "diffLastWriteNextOutput (sourceBuffers s b) < BUFFER_LENGTH_SAMPLES"
  shows "\<exists>s' out. sendBuffer_pass s t
       = Inr (s', map (\<lambda>k. sum_list (map (\<lambda>c. contribution (sourceBuffers s c) k)
                                     (filter (\<lambda>c. c \<noteq> b) [0..<MAX_SOURCE_BUFFERS])))
                    [0..<BUFFER_LENGTH_SAMPLES], out)
     \<and> \<not> started (sourceBuffers s' b)
     \<and> endOfLastWrite (sourceBuffers s' b) = Some (nextOutput (sourceBuffers s' b))
     \<and> diffLastWriteNextOutput (sourceBuffers s' b) = 0
     \<and> sourceBuffers s' b = (sourceBuffers s b)\<lparr>started := False\<rparr>"
proof -
  note al = reach_framesAligned [OF r]
  have "endOfLastWrite (sourceBuffers s b) \<noteq> None"
  proof
    assume "endOfLastWrite (sourceBuffers s b) = None"
    with r have "sourceBuffers s b = emptyBuffer" by (rule reach_unwritten)
    with st show False by (simp add: emptyBuffer_def)
  qed
  then obtain w where written: "endOfLastWrite (sourceBuffers s b) = Some w" by auto
  from sendBuffer_pass_Inr [OF framesAligned_cursorsInRange [OF al], of t] obtain s' where
    pass: "sendBuffer_pass s t
       = Inr (s', map (mixOf s) [0..<BUFFER_LENGTH_SAMPLES],
              map (mixPacket s) (filter (\<lambda>a. recentlySeen (agents s a) t) [0..<numAgents s]))"
    and sb: "\<forall>b<MAX_SOURCE_BUFFERS. sourceBuffers s' b = mixedBuffer (sourceBuffers s b)"
    by blast
  have silent: "\<And>k. contribution (sourceBuffers s b) k = 0"
    using starved by (simp add: contribution_def playable_def)
  have "\<And>k. mixOf s k = sum_list (map (\<lambda>c. contribution (sourceBuffers s c) k)
                                     (filter (\<lambda>c. c \<noteq> b) [0..<MAX_SOURCE_BUFFERS]))"
    unfolding mixOf_def by (rule sum_list_without) (rule silent)
  then have m: "mixOf s = (\<lambda>k. sum_list (map (\<lambda>c. contribution (sourceBuffers s c) k)
                                     (filter (\<lambda>c. c \<noteq> b) [0..<MAX_SOURCE_BUFFERS])))"
    by (intro ext)
  have stopped: "sourceBuffers s' b = (sourceBuffers s b)\<lparr>started := False\<rparr>"
    using sb b st written starved by (simp add: mixedBuffer_starved)
  have together: "nextOutput (sourceBuffers s b) = w"
    using framesAligned_buffer [OF al b] written starved by (rule frameAligned_starved)
  have wl: "w < 5120"
    using framesAligned_buffer [OF al b] written
    by (simp add: frameAligned_def RING_BUFFER_SAMPLES_eq)
  have e': "endOfLastWrite (sourceBuffers s' b) = Some w"
    by (simp add: stopped written)
  have "diffLastWriteNextOutput (sourceBuffers s' b) = 0"
    unfolding diff_Some [OF e'] backlog_cases [OF wl] by (simp add: stopped together)
  with pass stopped together written show ?thesis
    unfolding m by simp
qed

lemma played_fields:
  assumes r: "reach s" and b: "b < MAX_SOURCE_BUFFERS" and pl: "playable (sourceBuffers s b)"
  shows "\<exists>s' mm out. sendBuffer_pass s t = Inr (s', mm, out) \<and> reach s'
     \<and> started (sourceBuffers s' b)
     \<and> endOfLastWrite (sourceBuffers s' b) = endOfLastWrite (sourceBuffers s b)
     \<and> nextOutput (sourceBuffers s' b)
         = (if 5120 \<le> nextOutput (sourceBuffers s b) + 512 then 0
            else nextOutput (sourceBuffers s b) + 512)"
proof -
  from sendBuffer_pass_Inr [OF framesAligned_cursorsInRange [OF reach_framesAligned [OF r]], of t]
  obtain s' where
    pass: "sendBuffer_pass s t
       = Inr (s', map (mixOf s) [0..<BUFFER_LENGTH_SAMPLES],
              map (mixPacket s) (filter (\<lambda>a. recentlySeen (agents s a) t) [0..<numAgents s]))"
    and sb: "\<forall>b<MAX_SOURCE_BUFFERS. sourceBuffers s' b = mixedBuffer (sourceBuffers s b)"
    by blast
  from r pass have "reach s'" by (rule reach_pass)
  moreover from sb b have "sourceBuffers s' b = mixedBuffer (sourceBuffers s b)" by simp
  ultimately show ?thesis
    using pass pl
    by (simp add: started_mixedBuffer endOfLastWrite_mixedBuffer nextOutput_mixedBuffer)
qed

lemma two_frames_played:
  "\<exists>s s1 mm1 out1 s2 mm2 out2. admissions (\<lambda>j. 5000) 2 = Inr s
     \<and> sendBuffer_pass s (exampleTime 100) = Inr (s1, mm1, out1)
     \<and> sendBuffer_pass s1 (exampleTime 100) = Inr (s2, mm2, out2)
     \<and> reach s2 \<and> started (sourceBuffers s2 0)
     \<and> endOfLastWrite (sourceBuffers s2 0) = Some 1024
     \<and> nextOutput (sourceBuffers s2 0) = 1024"
proof -
  have b: "0 < MAX_SOURCE_BUFFERS" by (simp add: MAX_SOURCE_BUFFERS_def)
  from admissions_same [of 2] obtain s where
    s: "admissions (\<lambda>j. 5000) 2 = Inr s" and h: "heldFrames 2 s"
    by auto
  note f = heldFrames_fields [OF h, simplified]
  have pl: "playable (sourceBuffers s 0)"
    using f by (simp add: playable_def BUFFER_LENGTH_SAMPLES_eq JITTER_BUFFER_SAMPLES_def)
  from played_fields [OF reach_admissions [OF s] b pl, of "exampleTime 100"] obtain s1 mm1 out1 where
    p1: "sendBuffer_pass s (exampleTime 100) = Inr (s1, mm1, out1)" and r1: "reach s1"
    and st1: "started (sourceBuffers s1 0)"
    and w1: "endOfLastWrite (sourceBuffers s1 0) = Some 1024"
    and n1: "nextOutput (sourceBuffers s1 0) = 512"
    using f by auto
  have d1: "diffLastWriteNextOutput (sourceBuffers s1 0) = 512"
    unfolding diff_Some [OF w1] n1 using backlog_cases [of 1024 5120 512] by simp
  have pl1: "playable (sourceBuffers s1 0)"
    by (simp add: playable_def st1 w1 d1 BUFFER_LENGTH_SAMPLES_eq)
  from played_fields [OF r1 b pl1, of "exampleTime 100"] obtain s2 mm2 out2 where
    "sendBuffer_pass s1 (exampleTime 100) = Inr (s2, mm2, out2)" "reach s2"
    "started (sourceBuffers s2 0)"
    "endOfLastWrite (sourceBuffers s2 0) = Some 1024"
    "nextOutput (sourceBuffers s2 0) = 1024"
    using w1 n1 by auto
  with s p1 show ?thesis by blast
qed

text \<open>Two frames arrive from one agent and two passes play them; the third pass finds the
  started buffer empty and stops it.\<close>

theorem starved_stops_witness:
  "\<exists>s s1 mm1 out1 s2 mm2 out2 s' out. admissions (\<lambda>j. 5000) 2 = Inr s
     \<and> sendBuffer_pass s (exampleTime 100) = Inr (s1, mm1, out1)
     \<and> sendBuffer_pass s1 (exampleTime 100) = Inr (s2, mm2, out2)
     \<and> started (sourceBuffers s2 0)
     \<and> diffLastWriteNextOutput (sourceBuffers s2 0) = 0
     \<and> sendBuffer_pass s2 (exampleTime 100)
         = Inr (s', map (\<lambda>k. sum_list (map (\<lambda>c. contribution (sourceBuffers s2 c) k)
                                     (filter (\<lambda>c. c \<noteq> 0) [0..<MAX_SOURCE_BUFFERS])))
                    [0..<BUFFER_LENGTH_SAMPLES], out)
     \<and> \<not> started (sourceBuffers s' 0)
     \<and> endOfLastWrite (sourceBuffers s' 0) = Some (nextOutput (sourceBuffers s' 0))"
proof -
  have b: "0 < MAX_SOURCE_BUFFERS" by (simp add: MAX_SOURCE_BUFFERS_def)
  from two_frames_played obtain s s1 mm1 out1 s2 mm2 out2 where
    run: "admissions (\<lambda>j. 5000) 2 = Inr s"
      "sendBuffer_pass s (exampleTime 100) = Inr (s1, mm1, out1)"
      "sendBuffer_pass s1 (exampleTime 100) = Inr (s2, mm2, out2)"
    and r2: "reach s2" and st2: "started (sourceBuffers s2 0)"
    and w2: "endOfLastWrite (sourceBuffers s2 0) = Some 1024"
    and n2: "nextOutput (sourceBuffers s2 0) = 1024"
    by blast
  have d2: "diffLastWriteNextOutput (sourceBuffers s2 0) = 0"
    unfolding diff_Some [OF w2] n2 using backlog_cases [of 1024 5120 1024] by simp
  then have starved: "diffLastWriteNextOutput (sourceBuffers s2 0) < BUFFER_LENGTH_SAMPLES"
    by (simp add: BUFFER_LENGTH_SAMPLES_eq)
  from starved_stops [OF r2 b st2 starved, of "exampleTime 100"] obtain s' out where
    "sendBuffer_pass s2 (exampleTime 100)
         = Inr (s', map (\<lambda>k. sum_list (map (\<lambda>c. contribution (sourceBuffers s2 c) k)
                                     (filter (\<lambda>c. c \<noteq> 0) [0..<MAX_SOURCE_BUFFERS])))
                    [0..<BUFFER_LENGTH_SAMPLES], out)"
    "\<not> started (sourceBuffers s' 0)"
    "endOfLastWrite (sourceBuffers s' 0) = Some (nextOutput (sourceBuffers s' 0))"
    by blast
  with run st2 d2 show ?thesis by blast
qed


section \<open>A write and the next read\<close>





section \<open>A full ring buffer\<close>

text \<open>The test of line 202 is never true in a state the program reaches: a backlog of
  frame-aligned cursors is at most the capacity less one frame.\<close>

lemma overflow_test_never_true:
  assumes "reach s" and "b < MAX_SOURCE_BUFFERS"
  shows "\<not> RING_BUFFER_SAMPLES - BUFFER_LENGTH_SAMPLES < diffLastWriteNextOutput (sourceBuffers s b)"
  using frameAligned_room [OF framesAligned_buffer [OF reach_framesAligned [OF assms(1)] assms(2)]]
  by simp



section \<open>A second frame from a known agent\<close>

text \<open>The agent of the table sends a second frame: it is copied after the first, at the
  write cursor 512.\<close>

theorem admission_population_witness:
  "\<exists>s s' is_new. admissions (\<lambda>j. 5000) 1 = Inr s
     \<and> numAgents s = 1 \<and> active (agents s 0)
     \<and> endOfLastWrite (sourceBuffers s 0) = Some 512
     \<and> addAgent s ''10.0.0.1'' 5000 (\<lambda>k. 7) (exampleTime 101) = Inr (s', is_new)
     \<and> is_new = 0 \<and> numAgents s' = 1
     \<and> agents s' = (agents s)(0 := (agents s 0)\<lparr>port := 5000, time := exampleTime 101\<rparr>)
     \<and> (\<forall>k<512. buffer (sourceBuffers s' 0) (512 + k) = 7)
     \<and> (\<forall>k<512. buffer (sourceBuffers s' 0) k = buffer (sourceBuffers s 0) k)
     \<and> endOfLastWrite (sourceBuffers s' 0) = Some 1024
     \<and> nextOutput (sourceBuffers s' 0) = nextOutput (sourceBuffers s 0)"
proof -
  have b: "0 < MAX_SOURCE_BUFFERS" by (simp add: MAX_SOURCE_BUFFERS_def)
  from admissions_same [of 1] obtain s where
    s: "admissions (\<lambda>j. 5000) 1 = Inr s" and h: "heldFrames 1 s"
    by auto
  note f = heldFrames_fields [OF h, simplified]
  from h have ns: "numAgents s = 1" and ag: "agents s 0 = exampleAgent 0"
    by (simp_all add: heldFrames_def)
  have act: "active (agents s 0)" by (simp add: ag exampleAgent_def)
  have al: "frameAligned (sourceBuffers s 0)"
    using reach_framesAligned [OF reach_admissions [OF s]] b by (rule framesAligned_buffer)
  have wr: "writable (sourceBuffers s 0)"
    using al by (rule frameAligned_writable)
  from admission_population [OF f(5) b wr, of "\<lambda>k. 7" "exampleTime 101"] obtain s' is_new where
    add: "addAgent s ''10.0.0.1'' 5000 (\<lambda>k. 7) (exampleTime 101) = Inr (s', is_new)"
    and known: "0 < numAgents s \<and> active (agents s 0) \<longrightarrow>
          is_new = 0 \<and> numAgents s' = numAgents s
          \<and> address (agents s 0) = ''10.0.0.1'' \<and> port (agents s 0) = 5000
          \<and> agents s' = (agents s)(0 := (agents s 0)\<lparr>port := 5000, time := exampleTime 101\<rparr>)"
    and copied: "\<forall>k<BUFFER_LENGTH_SAMPLES.
          buffer (sourceBuffers s' 0) (writeOffset (sourceBuffers s 0) + k) = 7"
    and kept: "\<forall>k. k < writeOffset (sourceBuffers s 0)
              \<or> writeOffset (sourceBuffers s 0) + BUFFER_LENGTH_SAMPLES \<le> k \<longrightarrow>
          buffer (sourceBuffers s' 0) k = buffer (sourceBuffers s 0) k"
    and cursor: "endOfLastWrite (sourceBuffers s' 0)
         = Some (if RING_BUFFER_SAMPLES \<le> writeOffset (sourceBuffers s 0) + BUFFER_LENGTH_SAMPLES
                 then 0 else writeOffset (sourceBuffers s 0) + BUFFER_LENGTH_SAMPLES)"
    and aligned: "frameAligned (sourceBuffers s 0) \<longrightarrow>
          writeOffset (sourceBuffers s 0)
            = (case endOfLastWrite (sourceBuffers s 0) of None \<Rightarrow> 0 | Some w \<Rightarrow> w)
          \<and> nextOutput (sourceBuffers s' 0) = nextOutput (sourceBuffers s 0)
          \<and> started (sourceBuffers s' 0) = started (sourceBuffers s 0)"
    by blast
  from aligned al f(2) have wo: "writeOffset (sourceBuffers s 0) = 512"
    and n': "nextOutput (sourceBuffers s' 0) = nextOutput (sourceBuffers s 0)"
    by simp_all
  from known ns act have "is_new = 0" "numAgents s' = 1"
      "agents s' = (agents s)(0 := (agents s 0)\<lparr>port := 5000, time := exampleTime 101\<rparr>)"
    by simp_all
  moreover from copied have "\<forall>k<512. buffer (sourceBuffers s' 0) (512 + k) = 7"
    by (simp add: wo BUFFER_LENGTH_SAMPLES_eq)
  moreover from kept have "\<forall>k<512. buffer (sourceBuffers s' 0) k = buffer (sourceBuffers s 0) k"
    by (simp add: wo)
  moreover from cursor have "endOfLastWrite (sourceBuffers s' 0) = Some 1024"
    by (simp add: wo BUFFER_LENGTH_SAMPLES_eq RING_BUFFER_SAMPLES_eq)
  ultimately show ?thesis using s ns act f(2) add n' by blast
qed

end
